theory Spec2Isabelle
  imports Main "HOL-Library.Sublist"
begin

section \<open>The change-log watcher of state/watcher/watcher.go\<close>

text \<open>
  The watcher goroutine is the only owner of the registry, the cursor and the two event
  queues; every other goroutine talks to it through the request channel.  The embedding
  is therefore sequential: the functions below are the bodies of \<open>handle\<close>, \<open>sync\<close>,
  \<open>flush\<close> and \<open>loop\<close>, and whatever the goroutine receives from outside (the rows the
  log iterator yields, the branch a \<open>select\<close> takes) is an explicit argument.
\<close>

subsection \<open>Values\<close>

text \<open>
  A document id is an \<open>interface{}\<close> that the code uses as a map key and compares with
  \<open>==\<close>, so it holds a value of comparable dynamic type: \<open>NilId\<close> is the nil interface,
  \<open>I64\<close> an int64, \<open>Str\<close> a string.  Revision numbers are int64 values that the code
  only compares and assigns (never adds), so they are integers here.
\<close>

datatype ident = NilId | I64 int | Str string

text \<open>
  What a field of a log document holds: a comparable value, a \<open>[]interface{}\<close> or a
  nested \<open>bson.D\<close> (an ordered list of named fields).
\<close>

datatype val = Atom ident | Arr "ident list" | Doc "(string \<times> val) list"

type_synonym DocElem = "string \<times> val"
type_synonym chan = nat

datatype Change = Change (change_C: string) (change_Id: ident) (change_Revno: int)

datatype watchKey = watchKey (key_c: string) (key_id: ident)

datatype watchInfo =
  watchInfo (info_ch: "chan option") (info_revno: int) (info_filter: "(ident \<Rightarrow> bool) option")

datatype event = event (ev_ch: "chan option") (ev_key: watchKey) (ev_revno: int)

text \<open>
  The fields of \<open>Watcher\<close> that the goroutine owns.  A Go map read of a missing key gives
  the nil slice, and the code never tells a missing key from an empty slice, so the
  registry is a total function into lists.
\<close>

record Watcher =
  watches :: "watchKey \<Rightarrow> watchInfo list"
  needSync :: bool
  syncEvents :: "event list"
  requestEvents :: "event list"
  lastId :: val

datatype werror =
    ErrDying
  | ErrRestartAgent
  | ErrNotFound
  | cappedPositionLostError
  | NilIdError
  | ReAddError "chan option" watchKey
  | QueryError int string
  | IOError string
  | Annotate werror string
  | Trace werror

fun Cause :: "werror \<Rightarrow> werror" where
  "Cause (Annotate e m) = Cause e"
| "Cause (Trace e) = Cause e"
| "Cause e = e"

datatype panic =
    ReAddChannel "chan option" watchKey
  | RemoveMissingChannel "chan option" watchKey
  | UnknownRequest
  | WatchNilId
  | UnwatchNilId
  | IndexOutOfRange
  | IdFieldNotFirst
  | UncomparableValues

subsection \<open>Requests and \<open>handle\<close>\<close>

datatype req =
    reqSync
  | reqWatch watchKey watchInfo
  | reqUnwatch watchKey "chan option"
  | reqWatchMulti string "ident list" "chan option"
  | reqOther

text \<open>What \<open>handle\<close> sends on the request's completion channel, if it has one.\<close>

datatype completion = NoCompletion | Completed "werror option"

definition match :: "watchKey \<Rightarrow> watchKey \<Rightarrow> bool" where
  "match k k1 =
     (if key_c k \<noteq> key_c k1 then False
      else if key_id k = NilId then True
      else key_id k = key_id k1)"

definition hasCh :: "chan option \<Rightarrow> watchInfo list \<Rightarrow> bool" where
  "hasCh ch infos = (\<exists>info \<in> set infos. info_ch info = ch)"

text \<open>The index of the first entry with the given channel (the \<open>reqUnwatch\<close> scan).\<close>

fun findCh :: "chan option \<Rightarrow> watchInfo list \<Rightarrow> nat option" where
  "findCh ch [] = None"
| "findCh ch (info # infos) =
     (if info_ch info = ch then Some 0 else map_option Suc (findCh ch infos))"

text \<open>\<open>watches[i] = watches[len-1]; watches[:len-1]\<close>\<close>

definition removeAt :: "nat \<Rightarrow> 'a list \<Rightarrow> 'a list" where
  "removeAt i xs = butlast (xs[i := last xs])"

definition purge :: "watchKey \<Rightarrow> chan option \<Rightarrow> event list \<Rightarrow> event list" where
  "purge k ch evs =
     map (\<lambda>e. if match k (ev_key e) \<and> ev_ch e = ch then event None (ev_key e) (ev_revno e) else e) evs"

text \<open>The first loop of \<open>reqWatchMulti\<close>: the first id whose key already holds the channel.\<close>

fun firstClash :: "(watchKey \<Rightarrow> watchInfo list) \<Rightarrow> string \<Rightarrow> ident list \<Rightarrow> chan option \<Rightarrow> watchKey option" where
  "firstClash ws c [] ch = None"
| "firstClash ws c (i # ids) ch =
     (if hasCh ch (ws (watchKey c i)) then Some (watchKey c i) else firstClash ws c ids ch)"

text \<open>The second loop of \<open>reqWatchMulti\<close>: one append per element of \<open>ids\<close>.\<close>

fun addAll :: "(watchKey \<Rightarrow> watchInfo list) \<Rightarrow> string \<Rightarrow> ident list \<Rightarrow> chan option \<Rightarrow> (watchKey \<Rightarrow> watchInfo list)" where
  "addAll ws c [] ch = ws"
| "addAll ws c (i # ids) ch =
     addAll (ws(watchKey c i := ws (watchKey c i) @ [watchInfo ch (-2) None])) c ids ch"

fun handle :: "Watcher \<Rightarrow> req \<Rightarrow> panic + (Watcher \<times> completion)" where
  "handle w reqSync = Inr (w\<lparr>needSync := True\<rparr>, NoCompletion)"
| "handle w (reqWatch k info) =
     (if hasCh (info_ch info) (watches w k) then Inl (ReAddChannel (info_ch info) k)
      else Inr (w\<lparr>watches := (watches w)(k := watches w k @ [info])\<rparr>, Completed None))"
| "handle w (reqUnwatch k ch) =
     (case findCh ch (watches w k) of
        None \<Rightarrow> Inl (RemoveMissingChannel ch k)
      | Some i \<Rightarrow>
          Inr (w\<lparr>watches := (watches w)(k := removeAt i (watches w k)),
                 requestEvents := purge k ch (requestEvents w),
                 syncEvents := purge k ch (syncEvents w)\<rparr>, NoCompletion))"
| "handle w (reqWatchMulti c ids ch) =
     (case firstClash (watches w) c ids ch of
        Some k \<Rightarrow> Inr (w, Completed (Some (ReAddError ch k)))
      | None \<Rightarrow> Inr (w\<lparr>watches := addAll (watches w) c ids ch\<rparr>, Completed None))"
| "handle w reqOther = Inl UnknownRequest"

subsection \<open>The public API, as far as it decides what reaches \<open>handle\<close>\<close>

text \<open>
  Each function gives the request the call puts on the request channel, or what the
  call does instead.  \<open>WatchMulti\<close> combines the check of its argument with the handling
  of its request by a running watcher and returns the error the caller receives.
\<close>

definition Watch :: "string \<Rightarrow> ident \<Rightarrow> chan option \<Rightarrow> panic + req" where
  "Watch c i ch = (if i = NilId then Inl WatchNilId else Inr (reqWatch (watchKey c i) (watchInfo ch (-2) None)))"

definition WatchCollectionWithFilter :: "string \<Rightarrow> chan option \<Rightarrow> (ident \<Rightarrow> bool) option \<Rightarrow> req" where
  "WatchCollectionWithFilter c ch f = reqWatch (watchKey c NilId) (watchInfo ch 0 f)"

definition WatchCollection :: "string \<Rightarrow> chan option \<Rightarrow> req" where
  "WatchCollection c ch = WatchCollectionWithFilter c ch None"

definition Unwatch :: "string \<Rightarrow> ident \<Rightarrow> chan option \<Rightarrow> panic + req" where
  "Unwatch c i ch = (if i = NilId then Inl UnwatchNilId else Inr (reqUnwatch (watchKey c i) ch))"

definition UnwatchCollection :: "string \<Rightarrow> chan option \<Rightarrow> req" where
  "UnwatchCollection c ch = reqUnwatch (watchKey c NilId) ch"

definition StartSync :: req where
  "StartSync = reqSync"

definition WatchMulti :: "Watcher \<Rightarrow> string \<Rightarrow> ident list \<Rightarrow> chan option \<Rightarrow> panic + (Watcher \<times> werror option)" where
  "WatchMulti w c ids ch =
     (if NilId \<in> set ids then Inr (w, Some NilIdError)
      else (case handle w (reqWatchMulti c ids ch) of
              Inl p \<Rightarrow> Inl p
            | Inr (w', Completed err) \<Rightarrow> Inr (w', map_option Trace err)
            | Inr (w', NoCompletion) \<Rightarrow> Inr (w', None)))"

subsection \<open>\<open>sync\<close>\<close>

datatype warning = InvalidCollection DocElem | RevnoType ident | CollectionOverflow

text \<open>What the goroutine gets from \<open>iteratorFunc\<close>: the rows \<open>Next\<close> yields and the result of \<open>Close\<close>.\<close>

datatype iterator = Iter (iter_entries: "DocElem list list") (iter_close: "werror option")

text \<open>The state of one pass: the \<open>seen\<close> map, the watcher and the warnings logged so far.\<close>

type_synonym pass = "watchKey set \<times> Watcher \<times> warning list"

definition normRevno :: "int \<Rightarrow> int" where
  "normRevno revno = (if revno < 0 then -1 else revno)"

text \<open>Lines 597-607: the events for the watches of the whole collection.\<close>

fun collEvents :: "watchKey \<Rightarrow> ident \<Rightarrow> int \<Rightarrow> watchInfo list \<Rightarrow> event list" where
  "collEvents key i revno [] = []"
| "collEvents key i revno (info # infos) =
     (case info_filter info of
        Some f \<Rightarrow>
          (if \<not> f i then collEvents key i revno infos
           else event (info_ch info) key revno # collEvents key i revno infos)
      | None \<Rightarrow> event (info_ch info) key revno # collEvents key i revno infos)"

text \<open>Lines 609-620: the watches of the document, updated in place, and their events.\<close>

fun docEvents :: "watchKey \<Rightarrow> int \<Rightarrow> watchInfo list \<Rightarrow> watchInfo list \<times> event list" where
  "docEvents key revno [] = ([], [])"
| "docEvents key revno (info # infos) =
     (let (infos', evs) = docEvents key revno infos in
      if revno > info_revno info \<or> (revno < 0 \<and> info_revno info \<ge> 0)
      then (watchInfo (info_ch info) revno (info_filter info) # infos', event (info_ch info) key revno # evs)
      else (info # infos', evs))"

definition notify :: "string \<Rightarrow> ident \<Rightarrow> int \<Rightarrow> Watcher \<Rightarrow> Watcher" where
  "notify c i revno w =
     (let key = watchKey c i;
          w1 = w\<lparr>syncEvents := syncEvents w @ collEvents key i revno (watches w (watchKey c NilId))\<rparr>;
          (infos', evs) = docEvents key revno (watches w1 key)
      in w1\<lparr>watches := (watches w1)(key := infos'), syncEvents := syncEvents w1 @ evs\<rparr>)"

text \<open>
  Lines 582-621: \<open>walk c d r n\<close> runs the loop body for the indices \<open>n-1\<close> down to 0.
  It is called with \<open>n = len(d) = len(r)\<close>, so every index is in range.
\<close>

fun walk :: "string \<Rightarrow> ident list \<Rightarrow> ident list \<Rightarrow> nat \<Rightarrow> pass \<Rightarrow> pass" where
  "walk c d r 0 st = st"
| "walk c d r (Suc i) (seen, w, lg) =
     (let key = watchKey c (d ! i) in
      if key \<in> seen then walk c d r i (seen, w, lg)
      else (case r ! i of
              I64 revno \<Rightarrow> walk c d r i (insert key seen, notify c (d ! i) (normRevno revno) w, lg)
            | _ \<Rightarrow> walk c d r i (insert key seen, w, lg @ [RevnoType (r ! i)])))"

definition asDoc :: "val \<Rightarrow> DocElem list" where
  "asDoc v = (case v of Doc items \<Rightarrow> items | _ \<Rightarrow> [])"

definition asArr :: "val \<Rightarrow> ident list" where
  "asArr v = (case v of Arr xs \<Rightarrow> xs | _ \<Rightarrow> [])"

text \<open>Lines 570-577: the last \<open>d\<close> and the last \<open>r\<close> field win; a failed type assertion gives nil.\<close>

fun batchFields :: "DocElem list \<Rightarrow> ident list \<times> ident list \<Rightarrow> ident list \<times> ident list" where
  "batchFields [] dr = dr"
| "batchFields (item # items) (d, r) =
     (if fst item = ''d'' then batchFields items (asArr (snd item), r)
      else if fst item = ''r'' then batchFields items (d, asArr (snd item))
      else batchFields items (d, r))"

definition batch :: "DocElem \<Rightarrow> pass \<Rightarrow> pass" where
  "batch c st =
     (let (d, r) = batchFields (asDoc (snd c)) ([], []) in
      if length d = 0 \<or> length d \<noteq> length r
      then (case st of (seen, w, lg) \<Rightarrow> (seen, w, lg @ [InvalidCollection c]))
      else walk (fst c) d r (length d) st)"

fun batches :: "DocElem list \<Rightarrow> pass \<Rightarrow> pass" where
  "batches [] st = st"
| "batches (c # cs) st = batches cs (batch c st)"

text \<open>
  \<open>id.Value == lastId\<close> compares two interface values: Go panics when both hold the same
  uncomparable dynamic type.
\<close>

fun ifaceEq :: "val \<Rightarrow> val \<Rightarrow> bool option" where
  "ifaceEq (Arr xs) (Arr ys) = None"
| "ifaceEq (Doc xs) (Doc ys) = None"
| "ifaceEq a b = Some (a = b)"

text \<open>
  Lines 550-623.  \<open>cursor\<close> is the local \<open>lastId\<close>, the cursor as it was when the pass began;
  \<open>first\<close> is the flag of the same name.
\<close>

fun entries :: "val \<Rightarrow> DocElem list list \<Rightarrow> bool \<Rightarrow> pass \<Rightarrow> panic + pass" where
  "entries cursor [] first st = Inr st"
| "entries cursor ([] # es) first st = Inl IndexOutOfRange"
| "entries cursor ((idel # cs) # es) first (seen, w, lg) =
     (if fst idel \<noteq> ''_id'' then Inl IdFieldNotFirst
      else
        let w1 = (if first then w\<lparr>lastId := snd idel\<rparr> else w) in
        (case ifaceEq (snd idel) cursor of
           None \<Rightarrow> Inl UncomparableValues
         | Some True \<Rightarrow> Inr (seen, w1, lg)
         | Some False \<Rightarrow> entries cursor es False (batches cs (seen, w1, lg))))"

fun Contains :: "string \<Rightarrow> string \<Rightarrow> bool" where
  "Contains [] sub = (sub = [])"
| "Contains (x # xs) sub = (prefix sub (x # xs) \<or> Contains xs sub)"

definition isPositionLost :: "werror \<Rightarrow> bool" where
  "isPositionLost err =
     (case err of
        QueryError code msg \<Rightarrow> code = 136 \<or> Contains msg ''CappedPositionLost''
      | _ \<Rightarrow> False)"

definition sync :: "Watcher \<Rightarrow> iterator \<Rightarrow> panic + (Watcher \<times> werror option \<times> warning list)" where
  "sync w it =
     (let w0 = w\<lparr>needSync := False\<rparr> in
      case entries (lastId w0) (iter_entries it) True ({}, w0, []) of
        Inl p \<Rightarrow> Inl p
      | Inr (seen, w1, lg) \<Rightarrow>
          (case iter_close it of
             None \<Rightarrow> Inr (w1, None, lg)
           | Some err \<Rightarrow>
               if isPositionLost err
               then Inr (w1, Some (Annotate cappedPositionLostError ''watcher iteration error''),
                         lg @ [CollectionOverflow])
               else Inr (w1, Some (Annotate err ''watcher iteration error''), lg)))"

text \<open>The result of a pass without the lines it logged.\<close>

definition withoutLog :: "panic + (Watcher \<times> werror option \<times> warning list) \<Rightarrow> panic + (Watcher \<times> werror option)" where
  "withoutLog res = (case res of Inl p \<Rightarrow> Inl p | Inr (w, err, lg) \<Rightarrow> Inr (w, err))"

subsection \<open>\<open>flush\<close>\<close>

text \<open>
  The branch a \<open>select\<close> inside \<open>flush\<close> takes: the tomb is dying, a request arrives, or
  the subscriber accepts the event.  The list of branches is the schedule; when it runs
  out while an event is waiting, the goroutine is blocked in the \<open>select\<close>.
\<close>

datatype sel = SelDying | SelReq req | SelSend

text \<open>What leaves the goroutine: an event on a subscriber's channel, a completion signal.\<close>

datatype out = Send chan Change | Complete "werror option"

datatype status = Ok | Died | Blocked | Panicked panic

type_synonym fres = "status \<times> Watcher \<times> sel list \<times> out list"

definition complOut :: "completion \<Rightarrow> out list" where
  "complOut cpl = (case cpl of NoCompletion \<Rightarrow> [] | Completed err \<Rightarrow> [Complete err])"

definition toChange :: "event \<Rightarrow> Change" where
  "toChange e = Change (key_c (ev_key e)) (key_id (ev_key e)) (ev_revno e)"

text \<open>
  The inner loop \<open>for e.ch != nil\<close> for the event at index \<open>i\<close> of the queue \<open>q\<close>
  (\<open>syncEvents\<close> or \<open>requestEvents\<close>).  \<open>e\<close> is a pointer into the queue, so the event is
  read again after each request.
\<close>

fun deliver :: "(Watcher \<Rightarrow> event list) \<Rightarrow> nat \<Rightarrow> Watcher \<Rightarrow> sel list \<Rightarrow> fres" where
  "deliver q i w [] =
     (case ev_ch (q w ! i) of None \<Rightarrow> (Ok, w, [], []) | Some ch \<Rightarrow> (Blocked, w, [], []))"
| "deliver q i w (s # rest) =
     (case ev_ch (q w ! i) of
        None \<Rightarrow> (Ok, w, s # rest, [])
      | Some ch \<Rightarrow>
          (case s of
             SelDying \<Rightarrow> (Died, w, rest, [])
           | SelReq r \<Rightarrow>
               (case handle w r of
                  Inl p \<Rightarrow> (Panicked p, w, rest, [])
                | Inr (w', cpl) \<Rightarrow>
                    (case deliver q i w' rest of
                       (st, w'', rest', os) \<Rightarrow> (st, w'', rest', complOut cpl @ os)))
           | SelSend \<Rightarrow> (Ok, w, rest, [Send ch (toChange (q w ! i))])))"

text \<open>The first loop of \<open>flush\<close>: \<open>flushSync n\<close> runs the indices \<open>n-1\<close> down to 0.\<close>

fun flushSync :: "nat \<Rightarrow> Watcher \<Rightarrow> sel list \<Rightarrow> fres" where
  "flushSync 0 w sels = (Ok, w, sels, [])"
| "flushSync (Suc i) w sels =
     (case deliver syncEvents i w sels of
        (Ok, w', rest, os) \<Rightarrow>
          (case flushSync i w' rest of (st, w'', rest', os') \<Rightarrow> (st, w'', rest', os @ os'))
      | r \<Rightarrow> r)"

lemma handle_length_requestEvents:
  "handle w r = Inr (w', cpl) \<Longrightarrow> length (requestEvents w') = length (requestEvents w)"
  by (cases r) (auto simp: purge_def split: if_splits option.splits)

lemma handle_length_syncEvents:
  "handle w r = Inr (w', cpl) \<Longrightarrow> length (syncEvents w') = length (syncEvents w)"
  by (cases r) (auto simp: purge_def split: if_splits option.splits)

lemma deliver_length_requestEvents:
  "deliver q i w sels = (st, w', rest, os) \<Longrightarrow> length (requestEvents w') = length (requestEvents w)"
proof (induction sels arbitrary: w st w' rest os)
  case Nil
  then show ?case by (auto split: option.splits)
next
  case (Cons s sels)
  then show ?case
    by (auto split: option.splits sel.splits sum.splits prod.splits
             dest: handle_length_requestEvents)
qed

text \<open>The second loop of \<open>flush\<close>, from index \<open>i\<close> up to the end of the request queue.\<close>

function flushReq :: "nat \<Rightarrow> Watcher \<Rightarrow> sel list \<Rightarrow> fres" where
  "flushReq i w sels =
     (if i < length (requestEvents w) then
        (case deliver requestEvents i w sels of
           (Ok, w', rest, os) \<Rightarrow>
             (case flushReq (Suc i) w' rest of (st, w'', rest', os') \<Rightarrow> (st, w'', rest', os @ os'))
         | r \<Rightarrow> r)
      else (Ok, w, sels, []))"
  by pat_completeness auto
termination
  by (relation "measure (\<lambda>(i, w, sels). length (requestEvents w) - i)")
     (auto dest: deliver_length_requestEvents [OF sym])

declare flushReq.simps [simp del]

definition flush :: "Watcher \<Rightarrow> sel list \<Rightarrow> fres" where
  "flush w sels =
     (case flushSync (length (syncEvents w)) w sels of
        (Ok, w1, rest1, os1) \<Rightarrow>
          (case flushReq 0 w1 rest1 of
             (Ok, w2, rest2, os2) \<Rightarrow> (Ok, w2\<lparr>syncEvents := [], requestEvents := []\<rparr>, rest2, os1 @ os2)
           | (st, w2, rest2, os2) \<Rightarrow> (st, w2, rest2, os1 @ os2))
      | r \<Rightarrow> r)"

subsection \<open>\<open>loop\<close>\<close>

text \<open>
  The branch the \<open>select\<close> of the main loop takes.  The run of the goroutine is fixed by
  three lists: the iterators of its sync passes, the schedule of the selects inside
  \<open>flush\<close> and the branches of the main \<open>select\<close>.  When a list runs out the goroutine
  is waiting (in a \<open>select\<close>, or for the database).
\<close>

datatype pick = PickDying | PickNext | PickReq req

datatype outcome = Returned werror | Crashed panic | Waiting Watcher

text \<open>
  Lines 371-385, the part of an iteration before the \<open>select\<close>: either the loop is over
  (left), or it goes on to the \<open>select\<close> (right).  A \<open>flush\<close> that returns because the
  tomb is dying goes on to the \<open>select\<close> as well.
\<close>

definition syncFlush ::
  "Watcher \<Rightarrow> iterator list \<Rightarrow> sel list \<Rightarrow> (out list \<times> outcome) + (Watcher \<times> iterator list \<times> sel list \<times> out list)" where
  "syncFlush w its sels =
     (if needSync w then
        (case its of
           [] \<Rightarrow> Inl ([], Waiting w)
         | it # its' \<Rightarrow>
             (case sync w it of
                Inl p \<Rightarrow> Inl ([], Crashed p)
              | Inr (w1, Some err, lg) \<Rightarrow>
                  if Cause err = cappedPositionLostError then Inl ([], Returned ErrRestartAgent)
                  else Inl ([], Returned (Trace err))
              | Inr (w1, None, lg) \<Rightarrow>
                  (case flush w1 sels of
                     (Panicked p, w2, sels', os) \<Rightarrow> Inl (os, Crashed p)
                   | (Blocked, w2, sels', os) \<Rightarrow> Inl (os, Waiting w2)
                   | (st, w2, sels', os) \<Rightarrow> Inr (w2, its', sels', os))))
      else Inr (w, its, sels, []))"

text \<open>The \<open>for\<close> loop of \<open>loop\<close>, lines 370-396.\<close>

fun loopFrom :: "Watcher \<Rightarrow> iterator list \<Rightarrow> sel list \<Rightarrow> pick list \<Rightarrow> out list \<times> outcome" where
  "loopFrom w its sels [] =
     (case syncFlush w its sels of
        Inl res \<Rightarrow> res
      | Inr (w1, its1, sels1, os) \<Rightarrow> (os, Waiting w1))"
| "loopFrom w its sels (p # ps) =
     (case syncFlush w its sels of
        Inl res \<Rightarrow> res
      | Inr (w1, its1, sels1, os) \<Rightarrow>
          (case p of
             PickDying \<Rightarrow> (os, Returned (Trace ErrDying))
           | PickNext \<Rightarrow>
               (case loopFrom (w1\<lparr>needSync := True\<rparr>) its1 sels1 ps of
                  (os', res) \<Rightarrow> (os @ os', res))
           | PickReq r \<Rightarrow>
               (case handle w1 r of
                  Inl pn \<Rightarrow> (os, Crashed pn)
                | Inr (w2, cpl) \<Rightarrow>
                    (case flush w2 sels1 of
                       (Panicked pn, w3, sels3, os3) \<Rightarrow> (os @ complOut cpl @ os3, Crashed pn)
                     | (Blocked, w3, sels3, os3) \<Rightarrow> (os @ complOut cpl @ os3, Waiting w3)
                     | (st, w3, sels3, os3) \<Rightarrow>
                         (case loopFrom w3 its1 sels3 ps of
                            (os', res) \<Rightarrow> (os @ complOut cpl @ os3 @ os', res))))))"

text \<open>
  \<open>initLastId\<close>: \<open>one\<close> is the result of the query for the most recent log document, its
  \<open>_id\<close> or the error.  The entry stays zero when the query fails.
\<close>

definition initLastId :: "Watcher \<Rightarrow> werror + val \<Rightarrow> werror + Watcher" where
  "initLastId w one =
     (case one of
        Inr v \<Rightarrow> Inr (w\<lparr>lastId := v\<rparr>)
      | Inl err \<Rightarrow> if err \<noteq> ErrNotFound then Inl (Trace err) else Inr (w\<lparr>lastId := Atom NilId\<rparr>))"

definition loop ::
  "Watcher \<Rightarrow> werror + val \<Rightarrow> iterator list \<Rightarrow> sel list \<Rightarrow> pick list \<Rightarrow> out list \<times> outcome" where
  "loop w one its sels picks =
     (case initLastId (w\<lparr>needSync := True\<rparr>) one of
        Inl err \<Rightarrow> ([], Returned (Trace err))
      | Inr w1 \<Rightarrow> loopFrom w1 its sels picks)"

text \<open>
  \<open>newWatcher\<close>: the fresh watcher, which runs \<open>loop\<close> in its tomb and hands the tomb
  the cause of the error \<open>loop\<close> returns.
\<close>

definition newWatcher :: Watcher where
  "newWatcher = \<lparr>watches = (\<lambda>k. []), needSync = False, syncEvents = [], requestEvents = [],
                  lastId = Atom NilId\<rparr>"

text \<open>
  \<open>Wait\<close> returns once \<open>loop\<close> has returned (\<open>None\<close>: it has not).  The tomb keeps the
  reason of \<open>Kill\<close>, which is always nil here, when the goroutine returns \<open>ErrDying\<close>, and
  takes the returned cause as its reason otherwise.
\<close>

definition Wait :: "out list \<times> outcome \<Rightarrow> werror option option" where
  "Wait run =
     (case snd run of
        Returned err \<Rightarrow> Some (if Cause err = ErrDying then None else Some (Cause err))
      | _ \<Rightarrow> None)"


subsection \<open>The candidate changes of a pass\<close>

text \<open>
  \<open>sync\<close> decides which documents changed and notifies the watches in one loop.  The
  functions below follow the same loops and only collect the candidate changes, a
  collection, an id and a normalized revno each, in the order in which \<open>sync\<close> reaches
  line 596 for them; \<open>applyCands\<close> runs lines 596-620 for a list of candidates.
\<close>

type_synonym cand = "string \<times> ident \<times> int"

definition candKey :: "cand \<Rightarrow> watchKey" where
  "candKey cd = (case cd of (c, i, revno) \<Rightarrow> watchKey c i)"

fun walkCands :: "string \<Rightarrow> ident list \<Rightarrow> ident list \<Rightarrow> nat \<Rightarrow> watchKey set \<Rightarrow> watchKey set \<times> cand list" where
  "walkCands c d r 0 seen = (seen, [])"
| "walkCands c d r (Suc i) seen =
     (let key = watchKey c (d ! i) in
      if key \<in> seen then walkCands c d r i seen
      else (case walkCands c d r i (insert key seen) of
              (seen', cs) \<Rightarrow>
                (seen', (case r ! i of I64 revno \<Rightarrow> [(c, d ! i, normRevno revno)] | _ \<Rightarrow> []) @ cs)))"

definition batchCands :: "DocElem \<Rightarrow> watchKey set \<Rightarrow> watchKey set \<times> cand list" where
  "batchCands c seen =
     (let (d, r) = batchFields (asDoc (snd c)) ([], []) in
      if length d = 0 \<or> length d \<noteq> length r then (seen, [])
      else walkCands (fst c) d r (length d) seen)"

fun batchesCands :: "DocElem list \<Rightarrow> watchKey set \<Rightarrow> watchKey set \<times> cand list" where
  "batchesCands [] seen = (seen, [])"
| "batchesCands (c # cs) seen =
     (case batchCands c seen of
        (seen1, xs) \<Rightarrow> (case batchesCands cs seen1 of (seen2, ys) \<Rightarrow> (seen2, xs @ ys)))"

fun entriesCands :: "val \<Rightarrow> DocElem list list \<Rightarrow> watchKey set \<Rightarrow> watchKey set \<times> cand list" where
  "entriesCands cursor [] seen = (seen, [])"
| "entriesCands cursor ([] # es) seen = (seen, [])"
| "entriesCands cursor ((idel # cs) # es) seen =
     (if fst idel \<noteq> ''_id'' then (seen, [])
      else
        (case ifaceEq (snd idel) cursor of
           None \<Rightarrow> (seen, [])
         | Some True \<Rightarrow> (seen, [])
         | Some False \<Rightarrow>
             (case batchesCands cs seen of
                (seen1, xs) \<Rightarrow> (case entriesCands cursor es seen1 of (seen2, ys) \<Rightarrow> (seen2, xs @ ys)))))"

definition syncCands :: "Watcher \<Rightarrow> iterator \<Rightarrow> cand list" where
  "syncCands w it = snd (entriesCands (lastId w) (iter_entries it) {})"

fun applyCands :: "cand list \<Rightarrow> Watcher \<Rightarrow> Watcher" where
  "applyCands [] w = w"
| "applyCands ((c, i, revno) # cs) w = applyCands cs (notify c i revno w)"

text \<open>
  What the \<open>seen\<close> map guarantees for the candidates collected from \<open>seen\<close> on: the map
  only grows, every candidate's key is new and in the map afterwards, and no two
  candidates share a key.
\<close>

definition fresh :: "watchKey set \<Rightarrow> watchKey set \<times> cand list \<Rightarrow> bool" where
  "fresh seen res =
     (seen \<subseteq> fst res \<and> (\<forall>cd \<in> set (snd res). candKey cd \<in> fst res \<and> candKey cd \<notin> seen)
      \<and> distinct (map candKey (snd res)))"

subsection \<open>Properties named by the specification\<close>

text \<open>At most one entry for each pair of a key and a channel.\<close>

definition registryInv :: "(watchKey \<Rightarrow> watchInfo list) \<Rightarrow> bool" where
  "registryInv ws = (\<forall>k. distinct (map info_ch (ws k)))"

text \<open>
  The condition under which a document watch that last delivered \<open>lastDelivered\<close> is told
  of \<open>revno\<close>.
\<close>

definition reportable :: "int \<Rightarrow> int \<Rightarrow> bool" where
  "reportable revno lastDelivered = (revno > lastDelivered \<or> (revno < 0 \<and> lastDelivered \<ge> 0))"

text \<open>A collection watch has no filter, or its filter accepts the id.\<close>

definition passesFilter :: "ident \<Rightarrow> watchInfo \<Rightarrow> bool" where
  "passesFilter i info = (case info_filter info of None \<Rightarrow> True | Some f \<Rightarrow> f i)"

text \<open>The state of a pass without the lines logged so far.\<close>

definition passCore :: "panic + pass \<Rightarrow> panic + (watchKey set \<times> Watcher)" where
  "passCore res = (case res of Inl p \<Rightarrow> Inl p | Inr (seen, w, lg) \<Rightarrow> Inr (seen, w))"

subsection \<open>What a flush may send\<close>

text \<open>
  The sends a list of queued events stands for, in the order of the list: one for each
  event whose channel is not nil.  \<open>sent\<close> picks the sends out of what left the goroutine.
\<close>

fun sends :: "event list \<Rightarrow> (chan \<times> Change) list" where
  "sends [] = []"
| "sends (e # es) = (case ev_ch e of None \<Rightarrow> sends es | Some ch \<Rightarrow> (ch, toChange e) # sends es)"

fun sent :: "out list \<Rightarrow> (chan \<times> Change) list" where
  "sent [] = []"
| "sent (Send ch chg # os) = (ch, chg) # sent os"
| "sent (Complete err # os) = sent os"

text \<open>\<open>es'\<close> is \<open>es\<close> with the channel of some of its events set to nil.\<close>

definition dimmed :: "event list \<Rightarrow> event list \<Rightarrow> bool" where
  "dimmed es es' = list_all2 (\<lambda>e e'. e' = e \<or> e' = event None (ev_key e) (ev_revno e)) es es'"

subsection \<open>The revnos a document watch receives\<close>





section \<open>Example states and runs\<close>

definition w_ab :: Watcher where
  "w_ab = newWatcher\<lparr>watches := addAll (watches newWatcher) ''machines'' [Str ''a'', Str ''b''] (Some 1)\<rparr>"

definition it_dup :: iterator where
  "it_dup = Iter
     [[(''_id'', Atom (Str ''t2'')),
       (''machines'', Doc [(''d'', Arr [Str ''m0'', Str ''m1'', Str ''m0'']),
                           (''r'', Arr [I64 5, I64 2, I64 6])])],
      [(''_id'', Atom (Str ''t1'')),
       (''machines'', Doc [(''d'', Arr [Str ''m0'']), (''r'', Arr [I64 4])])]]
     None"

definition w_units :: Watcher where
  "w_units = newWatcher\<lparr>watches := (watches newWatcher)(watchKey ''units'' NilId := [watchInfo (Some 1) 0 None])\<rparr>"

definition bad_batch :: DocElem where
  "bad_batch = (''machines'', Doc [(''d'', Arr [Str ''m0'', Str ''m1'']), (''r'', Arr [I64 1])])"

definition good_batch :: DocElem where
  "good_batch = (''units'', Doc [(''d'', Arr [Str ''u0'']), (''r'', Arr [I64 7])])"

text \<open>
  A log of one collection and one document, as the iterator shows it in four successive
  passes (newest entry first): the document is written with revno 3, removed (revno -5),
  removed again (revno -7) and written again with revno 1.
\<close>

definition logEntry :: "string \<Rightarrow> int \<Rightarrow> DocElem list" where
  "logEntry t revno =
     [(''_id'', Atom (Str t)), (''machines'', Doc [(''d'', Arr [Str ''m0'']), (''r'', Arr [I64 revno])])]"

definition it1 :: iterator where
  "it1 = Iter [logEntry ''t1'' 3] None"

definition it2 :: iterator where
  "it2 = Iter [logEntry ''t2'' (-5), logEntry ''t1'' 3] None"

definition it3 :: iterator where
  "it3 = Iter [logEntry ''t3'' (-7), logEntry ''t2'' (-5), logEntry ''t1'' 3] None"


definition watch_m0 :: req where
  "watch_m0 = reqWatch (watchKey ''machines'' (Str ''m0'')) (watchInfo (Some 1) (-2) None)"

definition w_coll :: Watcher where
  "w_coll = newWatcher\<lparr>watches := (watches newWatcher)(watchKey ''machines'' NilId := [watchInfo (Some 1) 0 None])\<rparr>"

definition it_m :: iterator where
  "it_m = Iter [[(''_id'', Atom (Str ''t1'')),
                 (''machines'', Doc [(''d'', Arr [Str ''m0'', Str ''m1'']), (''r'', Arr [I64 1, I64 2])])]]
            None"

definition w_queued :: Watcher where
  "w_queued = newWatcher
     \<lparr>syncEvents := [event (Some 1) (watchKey ''machines'' (Str ''m1'')) 5,
                     event None (watchKey ''machines'' (Str ''m9'')) 2,
                     event (Some 2) (watchKey ''machines'' (Str ''m0'')) 4],
      requestEvents := [event (Some 1) (watchKey ''units'' (Str ''u0'')) 7]\<rparr>"

definition it_two :: iterator where
  "it_two = Iter
     [[(''_id'', Atom (Str ''t2'')), (''machines'', Doc [(''d'', Arr [Str ''m1'']), (''r'', Arr [I64 5])])],
      [(''_id'', Atom (Str ''t1'')), (''machines'', Doc [(''d'', Arr [Str ''m0'']), (''r'', Arr [I64 4])])]]
     None"



section \<open>The registry\<close>

lemma watchKey_eq_iff: "k = watchKey c i \<longleftrightarrow> key_c k = c \<and> key_id k = i"
  by (cases k) auto

lemma count_list_pos_iff: "0 < count_list xs x \<longleftrightarrow> x \<in> set xs"
  using count_list_0_iff [of xs x] by auto

lemma addAll_apply:
  "addAll ws c ids ch k =
     ws k @ (if key_c k = c then replicate (count_list ids (key_id k)) (watchInfo ch (-2) None) else [])"
proof (induction ids arbitrary: ws)
  case Nil
  then show ?case by simp
next
  case (Cons i ids)
  show ?case
    by (auto simp: Cons.IH replicate_app_Cons_same watchKey_eq_iff)
qed

lemma firstClash_None:
  "firstClash ws c ids ch = None \<longleftrightarrow> (\<forall>i \<in> set ids. \<not> hasCh ch (ws (watchKey c i)))"
  by (induction ids) auto

lemma firstClash_Some:
  "firstClash ws c ids ch = Some k \<Longrightarrow> \<exists>i \<in> set ids. k = watchKey c i \<and> hasCh ch (ws k)"
  by (induction ids) (auto split: if_splits)

lemma hasCh_append: "hasCh ch (xs @ ys) \<longleftrightarrow> hasCh ch xs \<or> hasCh ch ys"
  by (auto simp: hasCh_def)

lemma hasCh_replicate: "hasCh ch (replicate n (watchInfo ch r f)) \<longleftrightarrow> 0 < n"
  by (auto simp: hasCh_def)

lemma WatchMulti_clash:
  assumes "\<exists>i \<in> set ids. hasCh ch (watches w (watchKey c i))"
  shows "\<exists>err. WatchMulti w c ids ch = Inr (w, Some err)"
proof (cases "NilId \<in> set ids")
  case True
  then show ?thesis by (simp add: WatchMulti_def)
next
  case False
  from assms have "firstClash (watches w) c ids ch \<noteq> None"
    by (simp add: firstClash_None)
  then obtain k where "firstClash (watches w) c ids ch = Some k" by auto
  with False show ?thesis by (simp add: WatchMulti_def)
qed

lemma WatchMulti_fresh:
  assumes "NilId \<notin> set ids" and "\<forall>i \<in> set ids. \<not> hasCh ch (watches w (watchKey c i))"
  shows "WatchMulti w c ids ch = Inr (w\<lparr>watches := addAll (watches w) c ids ch\<rparr>, None)"
proof -
  from assms(2) have "firstClash (watches w) c ids ch = None"
    by (simp add: firstClash_None)
  with assms(1) show ?thesis by (simp add: WatchMulti_def)
qed

lemma WatchMulti_Inr_None:
  assumes "WatchMulti w c ids ch = Inr (w1, None)"
  shows "NilId \<notin> set ids \<and> w1 = w\<lparr>watches := addAll (watches w) c ids ch\<rparr>"
  using assms
  by (auto simp: WatchMulti_def split: if_splits option.splits)

text \<open>
  C5.  \<open>WatchMulti\<close> is atomic.  If the channel is already registered against one of the
  ids, the call returns an error and the watcher is unchanged.  If it is registered
  against none of them (and no id is nil, the precondition of the call), the call
  returns no error, the channel is registered against every id, every other key keeps
  its entries, and each key only gains fresh entries for the channel at its end.  A
  second call for the same channel whose ids overlap those of a successful first call
  returns an error and leaves the watcher as the first call left it.
\<close>

theorem WatchMulti_atomic:
  "((\<exists>i \<in> set ids. hasCh ch (watches w (watchKey c i))) \<longrightarrow>
      (\<exists>err. WatchMulti w c ids ch = Inr (w, Some err)))
   \<and> (NilId \<notin> set ids \<and> (\<forall>i \<in> set ids. \<not> hasCh ch (watches w (watchKey c i))) \<longrightarrow>
      (\<exists>w'. WatchMulti w c ids ch = Inr (w', None)
         \<and> w' = w\<lparr>watches := watches w'\<rparr>
         \<and> (\<forall>i \<in> set ids. hasCh ch (watches w' (watchKey c i)))
         \<and> (\<forall>k. k \<notin> watchKey c ` set ids \<longrightarrow> watches w' k = watches w k)
         \<and> (\<forall>k. \<exists>n. watches w' k = watches w k @ replicate n (watchInfo ch (-2) None))))
   \<and> (WatchMulti w c ids ch = Inr (w1, None) \<and> set ids \<inter> set ids2 \<noteq> {} \<longrightarrow>
      (\<exists>err. WatchMulti w1 c ids2 ch = Inr (w1, Some err)))"
proof (intro conjI impI)
  assume "\<exists>i \<in> set ids. hasCh ch (watches w (watchKey c i))"
  then show "\<exists>err. WatchMulti w c ids ch = Inr (w, Some err)"
    by (rule WatchMulti_clash)
next
  assume a: "NilId \<notin> set ids \<and> (\<forall>i \<in> set ids. \<not> hasCh ch (watches w (watchKey c i)))"
  let ?w' = "w\<lparr>watches := addAll (watches w) c ids ch\<rparr>"
  have 1: "WatchMulti w c ids ch = Inr (?w', None)"
    using a by (simp add: WatchMulti_fresh)
  have 2: "\<forall>i \<in> set ids. hasCh ch (watches ?w' (watchKey c i))"
    by (simp add: addAll_apply hasCh_append hasCh_replicate count_list_pos_iff)
  have 3: "\<forall>k. k \<notin> watchKey c ` set ids \<longrightarrow> watches ?w' k = watches w k"
  proof (intro allI impI)
    fix k assume "k \<notin> watchKey c ` set ids"
    then have "key_c k = c \<Longrightarrow> key_id k \<notin> set ids"
      by (cases k) auto
    then show "watches ?w' k = watches w k"
      by (auto simp: addAll_apply count_list_0_iff)
  qed
  have 4: "\<forall>k. \<exists>n. watches ?w' k = watches w k @ replicate n (watchInfo ch (-2) None)"
  proof
    fix k
    show "\<exists>n. watches ?w' k = watches w k @ replicate n (watchInfo ch (-2) None)"
      by (cases "key_c k = c") (auto simp: addAll_apply intro: exI [of _ 0])
  qed
  show "\<exists>w'. WatchMulti w c ids ch = Inr (w', None)
         \<and> w' = w\<lparr>watches := watches w'\<rparr>
         \<and> (\<forall>i \<in> set ids. hasCh ch (watches w' (watchKey c i)))
         \<and> (\<forall>k. k \<notin> watchKey c ` set ids \<longrightarrow> watches w' k = watches w k)
         \<and> (\<forall>k. \<exists>n. watches w' k = watches w k @ replicate n (watchInfo ch (-2) None))"
    using 1 2 3 4 by (intro exI [of _ ?w']) simp
next
  assume a: "WatchMulti w c ids ch = Inr (w1, None) \<and> set ids \<inter> set ids2 \<noteq> {}"
  then have w1: "w1 = w\<lparr>watches := addAll (watches w) c ids ch\<rparr>"
    using WatchMulti_Inr_None by blast
  from a obtain i where i: "i \<in> set ids" "i \<in> set ids2" by auto
  have "hasCh ch (watches w1 (watchKey c i))"
    using i(1) by (simp add: w1 addAll_apply hasCh_append hasCh_replicate count_list_pos_iff)
  with i(2) show "\<exists>err. WatchMulti w1 c ids2 ch = Inr (w1, Some err)"
    by (intro WatchMulti_clash) auto
qed

theorem WatchMulti_atomic_witness:
  "WatchMulti newWatcher ''machines'' [Str ''a'', Str ''b''] (Some 1) = Inr (w_ab, None)
   \<and> hasCh (Some 1) (watches w_ab (watchKey ''machines'' (Str ''a'')))
   \<and> hasCh (Some 1) (watches w_ab (watchKey ''machines'' (Str ''b'')))
   \<and> (\<exists>err. WatchMulti w_ab ''machines'' [Str ''b'', Str ''c''] (Some 1) = Inr (w_ab, Some err))"
proof -
  have 1: "WatchMulti newWatcher ''machines'' [Str ''a'', Str ''b''] (Some 1) = Inr (w_ab, None)"
    by (simp add: WatchMulti_def w_ab_def newWatcher_def hasCh_def)
  have 2: "set [Str ''a'', Str ''b''] \<inter> set [Str ''b'', Str ''c''] \<noteq> {}"
    by simp
  have 3: "hasCh (Some 1) (watches w_ab (watchKey ''machines'' (Str ''a'')))"
      "hasCh (Some 1) (watches w_ab (watchKey ''machines'' (Str ''b'')))"
    by (simp_all add: w_ab_def newWatcher_def hasCh_def)
  from WatchMulti_atomic [of "[Str ''a'', Str ''b'']" "Some 1" newWatcher "''machines''" w_ab "[Str ''b'', Str ''c'']"] 1 2
  have "\<exists>err. WatchMulti w_ab ''machines'' [Str ''b'', Str ''c''] (Some 1) = Inr (w_ab, Some err)"
    by blast
  with 1 3 show ?thesis by blast
qed


section \<open>The decisions of a sync pass\<close>

lemma collEvents_eq:
  "collEvents key i revno infos =
     map (\<lambda>info. event (info_ch info) key revno) (filter (passesFilter i) infos)"
  by (induction infos) (auto simp: passesFilter_def split: option.splits)

lemma docEvents_eq:
  "docEvents key revno infos =
     (map (\<lambda>info. if reportable revno (info_revno info)
                   then watchInfo (info_ch info) revno (info_filter info) else info) infos,
      map (\<lambda>info. event (info_ch info) key revno)
          (filter (\<lambda>info. reportable revno (info_revno info)) infos))"
  by (induction infos) (auto simp: reportable_def)

lemma watches_notify:
  "watches (notify c i revno w) =
     (watches w)(watchKey c i := fst (docEvents (watchKey c i) revno (watches w (watchKey c i))))"
  by (simp add: notify_def Let_def split: prod.splits)

lemma syncEvents_notify:
  "syncEvents (notify c i revno w) =
     syncEvents w @ collEvents (watchKey c i) i revno (watches w (watchKey c NilId))
       @ snd (docEvents (watchKey c i) revno (watches w (watchKey c i)))"
  by (simp add: notify_def Let_def split: prod.splits)

lemma notify_other_fields:
  "requestEvents (notify c i revno w) = requestEvents w"
  "needSync (notify c i revno w) = needSync w"
  "lastId (notify c i revno w) = lastId w"
  by (simp_all add: notify_def Let_def split: prod.splits)

lemma notify_update_commute:
  "notify c i revno (w\<lparr>lastId := v\<rparr>) = (notify c i revno w)\<lparr>lastId := v\<rparr>"
  "notify c i revno (w\<lparr>needSync := b\<rparr>) = (notify c i revno w)\<lparr>needSync := b\<rparr>"
  by (simp_all add: notify_def Let_def split: prod.splits)

lemma applyCands_update_commute:
  "applyCands cs (w\<lparr>lastId := v\<rparr>) = (applyCands cs w)\<lparr>lastId := v\<rparr>"
  "applyCands cs (w\<lparr>needSync := b\<rparr>) = (applyCands cs w)\<lparr>needSync := b\<rparr>"
  by (induction cs arbitrary: w) (auto simp: notify_update_commute)

lemma applyCands_append: "applyCands (xs @ ys) w = applyCands ys (applyCands xs w)"
  by (induction xs arbitrary: w) auto

section \<open>sync and its candidates\<close>

lemma walk_refines:
  "walk c d r n (seen, w, lg) = (seen', w', lg') \<Longrightarrow>
     seen' = fst (walkCands c d r n seen) \<and> w' = applyCands (snd (walkCands c d r n seen)) w"
proof (induction n arbitrary: seen w lg)
  case 0
  then show ?case by simp
next
  case (Suc n)
  show ?case
  proof (cases "watchKey c (d ! n) \<in> seen")
    case True
    with Suc show ?thesis by simp
  next
    case False
    show ?thesis
    proof (cases "r ! n")
      case (I64 v)
      with False Suc.prems
      have "walk c d r n (insert (watchKey c (d ! n)) seen, notify c (d ! n) (normRevno v) w, lg)
              = (seen', w', lg')"
        by simp
      from Suc.IH [OF this] False I64 show ?thesis
        by (simp add: Let_def split: prod.splits)
    next
      case NilId
      with False Suc.prems
      have "walk c d r n (insert (watchKey c (d ! n)) seen, w, lg @ [RevnoType (r ! n)])
              = (seen', w', lg')"
        by simp
      from Suc.IH [OF this] False NilId show ?thesis
        by (simp add: Let_def split: prod.splits)
    next
      case (Str x)
      with False Suc.prems
      have "walk c d r n (insert (watchKey c (d ! n)) seen, w, lg @ [RevnoType (r ! n)])
              = (seen', w', lg')"
        by simp
      from Suc.IH [OF this] False Str show ?thesis
        by (simp add: Let_def split: prod.splits)
    qed
  qed
qed

lemma batch_refines:
  "batch c (seen, w, lg) = (seen', w', lg') \<Longrightarrow>
     seen' = fst (batchCands c seen) \<and> w' = applyCands (snd (batchCands c seen)) w"
  by (auto simp: batch_def batchCands_def Let_def split: prod.splits if_splits dest: walk_refines)

lemma batches_refines:
  "batches cs (seen, w, lg) = (seen', w', lg') \<Longrightarrow>
     seen' = fst (batchesCands cs seen) \<and> w' = applyCands (snd (batchesCands cs seen)) w"
proof (induction cs arbitrary: seen w lg)
  case Nil
  then show ?case by simp
next
  case (Cons c cs)
  obtain s1 w1 l1 where b: "batch c (seen, w, lg) = (s1, w1, l1)"
    by (cases "batch c (seen, w, lg)") auto
  with Cons.prems have "batches cs (s1, w1, l1) = (seen', w', lg')" by simp
  from Cons.IH [OF this] batch_refines [OF b] show ?case
    by (simp add: applyCands_append split: prod.splits)
qed

lemma entries_refines:
  "entries cursor es first (seen, w, lg) = Inr (seen', w', lg') \<Longrightarrow>
     seen' = fst (entriesCands cursor es seen)
     \<and> w' = (applyCands (snd (entriesCands cursor es seen)) w)\<lparr>lastId := lastId w'\<rparr>"
proof (induction es arbitrary: first seen w lg)
  case Nil
  then show ?case by simp
next
  case (Cons e es)
  show ?case
  proof (cases e)
    case Nil
    with Cons.prems show ?thesis by simp
  next
    case e: (Cons idel cs)
    let ?w1 = "if first then w\<lparr>lastId := snd idel\<rparr> else w"
    from Cons.prems e have name: "fst idel = ''_id''" by (auto split: if_splits)
    show ?thesis
    proof (cases "ifaceEq (snd idel) cursor")
      case None
      with Cons.prems e name show ?thesis by simp
    next
      case (Some b)
      show ?thesis
      proof (cases b)
        case True
        with Some Cons.prems e name show ?thesis by (auto simp: Let_def)
      next
        case False
        obtain s1 w1 l1 where b: "batches cs (seen, ?w1, lg) = (s1, w1, l1)"
          by (cases "batches cs (seen, ?w1, lg)") auto
        with Cons.prems e name Some False
        have "entries cursor es False (s1, w1, l1) = Inr (seen', w', lg')"
          by (simp add: Let_def)
        from Cons.IH [OF this]
        have ih1: "seen' = fst (entriesCands cursor es s1)"
          and ih2: "w' = (applyCands (snd (entriesCands cursor es s1)) w1)\<lparr>lastId := lastId w'\<rparr>"
          by simp_all
        from batches_refines [OF b]
        have s1: "s1 = fst (batchesCands cs seen)"
          and w1: "w1 = applyCands (snd (batchesCands cs seen)) ?w1" by simp_all
        have w1': "w1 = (applyCands (snd (batchesCands cs seen)) w)\<lparr>lastId := lastId w1\<rparr>"
          by (simp add: w1 applyCands_update_commute)
        have cands: "snd (entriesCands cursor (e # es) seen)
                       = snd (batchesCands cs seen) @ snd (entriesCands cursor es s1)"
          using e name Some False s1 by (simp split: prod.splits)
        have seen: "fst (entriesCands cursor (e # es) seen) = fst (entriesCands cursor es s1)"
          using e name Some False s1 by (simp split: prod.splits)
        have "w' = (applyCands (snd (entriesCands cursor es s1))
                      ((applyCands (snd (batchesCands cs seen)) w)\<lparr>lastId := lastId w1\<rparr>))\<lparr>lastId := lastId w'\<rparr>"
          using ih2 w1' by simp
        then have "w' = (applyCands (snd (entriesCands cursor es s1))
                      (applyCands (snd (batchesCands cs seen)) w))\<lparr>lastId := lastId w'\<rparr>"
          by (simp add: applyCands_update_commute)
        then show ?thesis
          using ih1 seen cands by (simp add: applyCands_append)
      qed
    qed
  qed
qed


section \<open>One candidate for each document in a pass\<close>

lemma candKey_simp: "candKey (c, i, revno) = watchKey c i"
  by (simp add: candKey_def)

lemma fresh_empty: "fresh seen (seen, [])"
  by (simp add: fresh_def)

lemma fresh_append:
  assumes "fresh seen (s1, xs)" and "fresh s1 (s2, ys)"
  shows "fresh seen (s2, xs @ ys)"
  using assms unfolding fresh_def by fastforce

lemma fresh_step:
  assumes "k \<notin> seen" and "\<forall>cd \<in> set new. candKey cd = k" and "length new \<le> 1"
  shows "fresh seen (insert k seen, new)"
proof (cases new)
  case Nil
  then show ?thesis by (auto simp: fresh_def)
next
  case (Cons cd rest)
  with assms(3) have "new = [cd]" by simp
  with assms(1,2) show ?thesis by (auto simp: fresh_def)
qed

lemma walkCands_fresh: "fresh seen (walkCands c d r n seen)"
proof (induction n arbitrary: seen)
  case 0
  show ?case by (simp add: fresh_empty)
next
  case (Suc n)
  let ?k = "watchKey c (d ! n)"
  show ?case
  proof (cases "?k \<in> seen")
    case True
    with Suc show ?thesis by simp
  next
    case False
    let ?new = "case r ! n of I64 revno \<Rightarrow> [(c, d ! n, normRevno revno)] | _ \<Rightarrow> []"
    obtain s1 cs where rest: "walkCands c d r n (insert ?k seen) = (s1, cs)"
      by (cases "walkCands c d r n (insert ?k seen)") auto
    have "fresh seen (insert ?k seen, ?new)"
      using False by (intro fresh_step) (auto simp: candKey_simp split: ident.splits)
    moreover have "fresh (insert ?k seen) (s1, cs)"
      using Suc [of "insert ?k seen"] rest by simp
    ultimately have "fresh seen (s1, ?new @ cs)" by (rule fresh_append)
    with False rest show ?thesis by (simp add: Let_def)
  qed
qed

lemma batchCands_fresh: "fresh seen (batchCands c seen)"
  by (simp add: batchCands_def Let_def fresh_empty walkCands_fresh split: prod.splits)

lemma batchesCands_fresh: "fresh seen (batchesCands cs seen)"
proof (induction cs arbitrary: seen)
  case Nil
  show ?case by (simp add: fresh_empty)
next
  case (Cons c cs)
  obtain s1 xs where 1: "batchCands c seen = (s1, xs)" by (cases "batchCands c seen") auto
  obtain s2 ys where 2: "batchesCands cs s1 = (s2, ys)" by (cases "batchesCands cs s1") auto
  have "fresh seen (s1, xs)" using batchCands_fresh [of seen c] 1 by simp
  moreover have "fresh s1 (s2, ys)" using Cons [of s1] 2 by simp
  ultimately show ?case using 1 2 by (simp add: fresh_append)
qed

lemma entriesCands_fresh: "fresh seen (entriesCands cursor es seen)"
proof (induction es arbitrary: seen)
  case Nil
  show ?case by (simp add: fresh_empty)
next
  case (Cons e es)
  show ?case
  proof (cases e)
    case Nil
    then show ?thesis by (simp add: fresh_empty)
  next
    case e: (Cons idel cs)
    obtain s1 xs where 1: "batchesCands cs seen = (s1, xs)" by (cases "batchesCands cs seen") auto
    obtain s2 ys where 2: "entriesCands cursor es s1 = (s2, ys)"
      by (cases "entriesCands cursor es s1") auto
    have "fresh seen (s1, xs)" using batchesCands_fresh [of seen cs] 1 by simp
    moreover have "fresh s1 (s2, ys)" using Cons [of s1] 2 by simp
    ultimately have "fresh seen (s2, xs @ ys)" by (rule fresh_append)
    with e 1 2 show ?thesis
      by (auto simp: fresh_empty split: option.splits bool.splits)
  qed
qed

lemma syncCands_distinct: "distinct (map candKey (syncCands w it))"
  using entriesCands_fresh [of "{}" "lastId w" "iter_entries it"]
  by (simp add: syncCands_def fresh_def)

lemma sync_refines:
  assumes "sync w it = Inr (w', err, lg)"
  shows "w' = (applyCands (syncCands w it) (w\<lparr>needSync := False\<rparr>))\<lparr>lastId := lastId w'\<rparr>"
proof -
  from assms obtain seen1 w1 lg1 where
    e: "entries (lastId w) (iter_entries it) True ({}, w\<lparr>needSync := False\<rparr>, []) = Inr (seen1, w1, lg1)"
    and w': "w' = w1"
    by (auto simp: sync_def Let_def split: sum.splits option.splits if_splits)
  from entries_refines [OF e] w' show ?thesis
    by (simp add: syncCands_def)
qed

lemma walkCands_last_wins:
  assumes "j < n" and "watchKey c (d ! j) \<notin> seen"
    and "\<forall>j'. j < j' \<and> j' < n \<longrightarrow> d ! j' \<noteq> d ! j"
  shows "filter (\<lambda>cd. candKey cd = watchKey c (d ! j)) (snd (walkCands c d r n seen))
           = (case r ! j of I64 v \<Rightarrow> [(c, d ! j, normRevno v)] | _ \<Rightarrow> [])"
  using assms
proof (induction n arbitrary: seen)
  case 0
  then show ?case by simp
next
  case (Suc n)
  let ?k = "watchKey c (d ! j)"
  show ?case
  proof (cases "j = n")
    case True
    let ?rest = "walkCands c d r n (insert ?k seen)"
    have "fresh (insert ?k seen) ?rest" by (rule walkCands_fresh)
    then have "\<forall>cd \<in> set (snd ?rest). candKey cd \<noteq> ?k"
      unfolding fresh_def by fastforce
    then have "filter (\<lambda>cd. candKey cd = ?k) (snd ?rest) = []"
      by (simp add: filter_empty_conv)
    with True Suc.prems show ?thesis
      by (cases "r ! n") (auto simp: Let_def candKey_simp split: prod.splits)
  next
    case False
    with Suc.prems have jn: "j < n" and ne: "d ! n \<noteq> d ! j" by auto
    have later: "\<forall>j'. j < j' \<and> j' < n \<longrightarrow> d ! j' \<noteq> d ! j"
      using Suc.prems by auto
    show ?thesis
    proof (cases "watchKey c (d ! n) \<in> seen")
      case True
      with Suc.IH [OF jn Suc.prems(2) later] show ?thesis by simp
    next
      case notseen: False
      have "?k \<notin> insert (watchKey c (d ! n)) seen"
        using Suc.prems(2) ne by auto
      from Suc.IH [OF jn this later] notseen ne show ?thesis
        by (cases "r ! n") (auto simp: Let_def candKey_simp split: prod.splits)
    qed
  qed
qed


text \<open>
  C4.  In one pass every (collection, id) pair is a candidate at most once, whatever
  the log entries hold: the candidates of a pass have distinct keys, and what \<open>sync\<close>
  does to the watcher is what lines 596-620 do for exactly these candidates, in order.
  Inside one batch, walked from its last row to its first, the candidate of an id that
  was not seen before comes from the last row that names the id (and there is none if
  that row's revno is not an int64).
\<close>

theorem sync_one_candidate_per_key:
  "distinct (map candKey (syncCands w it))
   \<and> (sync w it = Inr (w', err, lg) \<longrightarrow>
        w' = (applyCands (syncCands w it) (w\<lparr>needSync := False\<rparr>))\<lparr>lastId := lastId w'\<rparr>)
   \<and> (j < length d \<and> watchKey c (d ! j) \<notin> seen
        \<and> (\<forall>j'. j < j' \<and> j' < length d \<longrightarrow> d ! j' \<noteq> d ! j) \<longrightarrow>
        filter (\<lambda>cd. candKey cd = watchKey c (d ! j)) (snd (walkCands c d r (length d) seen))
          = (case r ! j of I64 v \<Rightarrow> [(c, d ! j, normRevno v)] | _ \<Rightarrow> []))"
  using syncCands_distinct sync_refines walkCands_last_wins by blast

lemma const_upd_same: "(\<lambda>k. v)(x := v) = (\<lambda>k. v)"
  by auto

lemma syncCands_it_dup:
  "syncCands newWatcher it_dup = [(''machines'', Str ''m0'', 6), (''machines'', Str ''m1'', 2)]"
  by (simp add: syncCands_def it_dup_def newWatcher_def batchCands_def Let_def asDoc_def asArr_def
        normRevno_def)

lemma sync_it_dup:
  "sync newWatcher it_dup
     = Inr (newWatcher\<lparr>lastId := Atom (Str ''t2'')\<rparr>, None, [])"
  by (simp add: sync_def it_dup_def newWatcher_def batch_def Let_def asDoc_def asArr_def
        normRevno_def notify_def const_upd_same)

theorem sync_one_candidate_per_key_witness:
  "syncCands newWatcher it_dup = [(''machines'', Str ''m0'', 6), (''machines'', Str ''m1'', 2)]
   \<and> distinct (map candKey (syncCands newWatcher it_dup))
   \<and> sync newWatcher it_dup = Inr (newWatcher\<lparr>lastId := Atom (Str ''t2'')\<rparr>, None, [])
   \<and> newWatcher\<lparr>lastId := Atom (Str ''t2'')\<rparr>
       = (applyCands (syncCands newWatcher it_dup) (newWatcher\<lparr>needSync := False\<rparr>))
           \<lparr>lastId := Atom (Str ''t2'')\<rparr>
   \<and> filter (\<lambda>cd. candKey cd = watchKey ''machines'' (Str ''m0''))
        (snd (walkCands ''machines'' [Str ''m0'', Str ''m1'', Str ''m0''] [I64 5, I64 2, I64 6] 3 {}))
       = [(''machines'', Str ''m0'', 6)]"
proof -
  let ?d = "[Str ''m0'', Str ''m1'', Str ''m0'']"
  let ?r = "[I64 5, I64 2, I64 6]"
  note inst = sync_one_candidate_per_key [of newWatcher it_dup "newWatcher\<lparr>lastId := Atom (Str ''t2'')\<rparr>"
                None "[]" 2 "?d" "''machines''" "{}" "?r"]
  have hyp: "(2::nat) < length ?d \<and> watchKey ''machines'' (?d ! 2) \<notin> {}
             \<and> (\<forall>j'. 2 < j' \<and> j' < length ?d \<longrightarrow> ?d ! j' \<noteq> ?d ! 2)"
    by simp
  from inst hyp
  have 3: "filter (\<lambda>cd. candKey cd = watchKey ''machines'' (?d ! 2))
             (snd (walkCands ''machines'' ?d ?r (length ?d) {}))
           = (case ?r ! 2 of I64 v \<Rightarrow> [(''machines'', ?d ! 2, normRevno v)] | _ \<Rightarrow> [])"
    by blast
  have 4: "filter (\<lambda>cd. candKey cd = watchKey ''machines'' (Str ''m0''))
             (snd (walkCands ''machines'' ?d ?r 3 {})) = [(''machines'', Str ''m0'', 6)]"
    using 3 by (simp add: normRevno_def eval_nat_numeral)
  from inst have 1: "distinct (map candKey (syncCands newWatcher it_dup))" by blast
  from inst sync_it_dup
  have 2: "newWatcher\<lparr>lastId := Atom (Str ''t2'')\<rparr>
       = (applyCands (syncCands newWatcher it_dup) (newWatcher\<lparr>needSync := False\<rparr>))
           \<lparr>lastId := Atom (Str ''t2'')\<rparr>"
    by simp
  from 1 2 4 syncCands_it_dup sync_it_dup show ?thesis by blast
qed

section \<open>WatchMulti with a repeated id\<close>

lemma hasCh_map_info_ch: "hasCh ch infos \<longleftrightarrow> ch \<in> set (map info_ch infos)"
  by (auto simp: hasCh_def)

lemma reqWatch_keeps_registryInv:
  assumes "registryInv (watches w)" and "handle w (reqWatch k info) = Inr (w2, cpl)"
  shows "registryInv (watches w2)"
proof -
  from assms(2) have fresh: "\<not> hasCh (info_ch info) (watches w k)"
    and w2: "w2 = w\<lparr>watches := (watches w)(k := watches w k @ [info])\<rparr>"
    by (auto split: if_splits)
  from assms(1) fresh show ?thesis
    by (auto simp: registryInv_def w2 hasCh_map_info_ch)
qed

text \<open>
  C10.  \<open>WatchMulti\<close> with an id that occurs more than once among its ids, for a channel
  registered against none of them, returns no error and appends one entry for each
  occurrence, so the key holds the same channel several times: the registry invariant
  does not hold afterwards.  \<open>reqWatch\<close> keeps the invariant, since it panics (as it does
  on the registry \<open>WatchMulti\<close> leaves) where the channel is already registered.
\<close>

theorem WatchMulti_repeated_id:
  assumes "NilId \<notin> set ids"
    and "\<forall>j \<in> set ids. \<not> hasCh ch (watches w (watchKey c j))"
    and "2 \<le> count_list ids i"
  shows "\<exists>w'. WatchMulti w c ids ch = Inr (w', None)
           \<and> watches w' (watchKey c i)
               = watches w (watchKey c i) @ replicate (count_list ids i) (watchInfo ch (-2) None)
           \<and> \<not> registryInv (watches w')
           \<and> handle w' (reqWatch (watchKey c i) (watchInfo ch (-2) None))
               = Inl (ReAddChannel ch (watchKey c i))
           \<and> (\<forall>w0 k info w2 cpl. registryInv (watches w0) \<and> handle w0 (reqWatch k info) = Inr (w2, cpl)
                 \<longrightarrow> registryInv (watches w2))"
proof -
  let ?w' = "w\<lparr>watches := addAll (watches w) c ids ch\<rparr>"
  have 1: "WatchMulti w c ids ch = Inr (?w', None)"
    using assms(1,2) by (rule WatchMulti_fresh)
  have 2: "watches ?w' (watchKey c i)
             = watches w (watchKey c i) @ replicate (count_list ids i) (watchInfo ch (-2) None)"
    by (simp add: addAll_apply)
  obtain n where n: "count_list ids i = Suc (Suc n)"
    using assms(3) by (metis Suc_le_D numeral_2_eq_2 Suc_le_mono)
  have "\<not> distinct (map info_ch (watches ?w' (watchKey c i)))"
    unfolding 2 n by simp
  then have 3: "\<not> registryInv (watches ?w')"
    unfolding registryInv_def by blast
  have "hasCh ch (watches ?w' (watchKey c i))"
    unfolding 2 n by (simp add: hasCh_def)
  then have 4: "handle ?w' (reqWatch (watchKey c i) (watchInfo ch (-2) None))
                  = Inl (ReAddChannel ch (watchKey c i))"
    by simp
  from 1 2 3 4 reqWatch_keeps_registryInv show ?thesis by blast
qed

theorem WatchMulti_repeated_id_witness:
  "registryInv (watches newWatcher)
   \<and> (\<exists>w'. WatchMulti newWatcher ''machines'' [Str ''m0'', Str ''m0''] (Some 1) = Inr (w', None)
        \<and> watches w' (watchKey ''machines'' (Str ''m0''))
            = [watchInfo (Some 1) (-2) None, watchInfo (Some 1) (-2) None]
        \<and> \<not> registryInv (watches w'))"
proof -
  have a: "NilId \<notin> set [Str ''m0'', Str ''m0'']" by simp
  have b: "\<forall>j \<in> set [Str ''m0'', Str ''m0''].
             \<not> hasCh (Some 1) (watches newWatcher (watchKey ''machines'' j))"
    by (simp add: newWatcher_def hasCh_def)
  have c: "2 \<le> count_list [Str ''m0'', Str ''m0''] (Str ''m0'')" by simp
  have d: "registryInv (watches newWatcher)"
    by (simp add: registryInv_def newWatcher_def)
  from WatchMulti_repeated_id [OF a b c] d show ?thesis
    by (auto simp: newWatcher_def numeral_2_eq_2)
qed


section \<open>Malformed batches\<close>

lemma batches_append: "batches (xs @ ys) st = batches ys (batches xs st)"
  by (induction xs arbitrary: st) auto

lemma batches_log_irrelevant:
  assumes "batches cs (seen, w, lg) = (s1, w1, l1)" and "batches cs (seen, w, lg2) = (s2, w2, l2)"
  shows "s1 = s2 \<and> w1 = w2"
  using batches_refines [OF assms(1)] batches_refines [OF assms(2)] by simp


lemma entries_log_irrelevant:
  "passCore (entries cursor es first (seen, w, lg)) = passCore (entries cursor es first (seen, w, lg2))"
proof (induction es arbitrary: first seen w lg lg2)
  case Nil
  show ?case by (simp add: passCore_def)
next
  case (Cons e es)
  show ?case
  proof (cases e)
    case Nil
    then show ?thesis by (simp add: passCore_def)
  next
    case e: (Cons idel cs)
    let ?w1 = "if first then w\<lparr>lastId := snd idel\<rparr> else w"
    obtain s1 w1 l1 where b1: "batches cs (seen, ?w1, lg) = (s1, w1, l1)"
      by (cases "batches cs (seen, ?w1, lg)") auto
    obtain s2 w2 l2 where b2: "batches cs (seen, ?w1, lg2) = (s2, w2, l2)"
      by (cases "batches cs (seen, ?w1, lg2)") auto
    from batches_log_irrelevant [OF b1 b2] have eq: "s2 = s1" "w2 = w1" by simp_all
    have "passCore (entries cursor es False (s1, w1, l1)) = passCore (entries cursor es False (s1, w1, l2))"
      by (rule Cons.IH)
    with e b1 b2 eq show ?thesis
      by (auto simp: passCore_def Let_def split: option.splits bool.splits)
  qed
qed

lemma batch_malformed:
  assumes "batchFields (asDoc (snd c)) ([], []) = (d, r)" and "length d \<noteq> length r"
  shows "batch c (seen, w, lg) = (seen, w, lg @ [InvalidCollection c])"
  using assms by (simp add: batch_def)

lemma entries_skip_malformed:
  assumes "batchFields (asDoc (snd c)) ([], []) = (d, r)" and "length d \<noteq> length r"
  shows "passCore (entries cursor (es1 @ (idel # cs1 @ c # cs2) # es2) first (seen, w, lg))
           = passCore (entries cursor (es1 @ (idel # cs1 @ cs2) # es2) first (seen, w, lg))"
proof (induction es1 arbitrary: first seen w lg)
  case Nil
  let ?w1 = "if first then w\<lparr>lastId := snd idel\<rparr> else w"
  obtain s1 w1 l1 where b1: "batches cs1 (seen, ?w1, lg) = (s1, w1, l1)"
    by (cases "batches cs1 (seen, ?w1, lg)") auto
  have with_c: "batches (cs1 @ c # cs2) (seen, ?w1, lg) = batches cs2 (s1, w1, l1 @ [InvalidCollection c])"
    by (simp add: batches_append b1 batch_malformed [OF assms])
  have without_c: "batches (cs1 @ cs2) (seen, ?w1, lg) = batches cs2 (s1, w1, l1)"
    by (simp add: batches_append b1)
  obtain s2 w2 l2 where b2: "batches cs2 (s1, w1, l1 @ [InvalidCollection c]) = (s2, w2, l2)"
    by (cases "batches cs2 (s1, w1, l1 @ [InvalidCollection c])") auto
  obtain s3 w3 l3 where b3: "batches cs2 (s1, w1, l1) = (s3, w3, l3)"
    by (cases "batches cs2 (s1, w1, l1)") auto
  from batches_log_irrelevant [OF b2 b3] have eq: "s2 = s3" "w2 = w3" by simp_all
  have "passCore (entries cursor es2 False (s3, w3, l2)) = passCore (entries cursor es2 False (s3, w3, l3))"
    by (rule entries_log_irrelevant)
  with with_c without_c b2 b3 eq show ?case
    by (auto simp: passCore_def Let_def split: option.splits bool.splits)
next
  case (Cons e es1)
  show ?case
  proof (cases e)
    case Nil
    then show ?thesis by simp
  next
    case e: (Cons idel0 cs0)
    let ?w1 = "if first then w\<lparr>lastId := snd idel0\<rparr> else w"
    obtain s1 w1 l1 where b1: "batches cs0 (seen, ?w1, lg) = (s1, w1, l1)"
      by (cases "batches cs0 (seen, ?w1, lg)") auto
    from Cons.IH [of False s1 w1 l1] e b1 show ?thesis
      by (auto simp: passCore_def Let_def split: option.splits bool.splits)
  qed
qed

lemma withoutLog_sync:
  "withoutLog (sync w it) =
     (case passCore (entries (lastId w) (iter_entries it) True ({}, w\<lparr>needSync := False\<rparr>, [])) of
        Inl p \<Rightarrow> Inl p
      | Inr (seen, w1) \<Rightarrow>
          (case iter_close it of
             None \<Rightarrow> Inr (w1, None)
           | Some err \<Rightarrow>
               if isPositionLost err
               then Inr (w1, Some (Annotate cappedPositionLostError ''watcher iteration error''))
               else Inr (w1, Some (Annotate err ''watcher iteration error''))))"
  by (auto simp: withoutLog_def sync_def passCore_def Let_def split: sum.splits option.splits)

text \<open>
  C8.  A batch whose id and revno sequences differ in length is skipped with one
  warning: at that batch the \<open>seen\<close> map and the watcher stay as they are (so nothing is
  queued), and the pass as a whole ends exactly as it would if the log entry did not
  hold the batch, with the same watcher and the same error or panic, if any.  The
  two sequences \<open>d\<close> and \<open>r\<close> are those the code reads from the batch.
\<close>

theorem sync_skips_malformed_batch:
  assumes "batchFields (asDoc (snd c)) ([], []) = (d, r)" and "length d \<noteq> length r"
  shows "batch c (seen, w, lg) = (seen, w, lg @ [InvalidCollection c])
         \<and> withoutLog (sync w0 (Iter (es1 @ (idel # cs1 @ c # cs2) # es2) cl))
             = withoutLog (sync w0 (Iter (es1 @ (idel # cs1 @ cs2) # es2) cl))"
  using batch_malformed [OF assms] entries_skip_malformed [OF assms]
  by (simp add: withoutLog_sync split: sum.splits prod.splits)

theorem sync_skips_malformed_batch_witness:
  "batch bad_batch ({}, w_units, []) = ({}, w_units, [InvalidCollection bad_batch])
   \<and> withoutLog (sync w_units (Iter [[(''_id'', Atom (Str ''t1'')), bad_batch, good_batch]] None))
       = withoutLog (sync w_units (Iter [[(''_id'', Atom (Str ''t1'')), good_batch]] None))
   \<and> sync w_units (Iter [[(''_id'', Atom (Str ''t1'')), bad_batch, good_batch]] None)
       = Inr (w_units\<lparr>syncEvents := [event (Some 1) (watchKey ''units'' (Str ''u0'')) 7],
                      lastId := Atom (Str ''t1'')\<rparr>,
              None, [InvalidCollection bad_batch])"
proof -
  have f: "batchFields (asDoc (snd bad_batch)) ([], []) = ([Str ''m0'', Str ''m1''], [I64 1])"
    by (simp add: bad_batch_def asDoc_def asArr_def)
  have l: "length [Str ''m0'', Str ''m1''] \<noteq> length [I64 (1::int)]"
    by simp
  note inst = sync_skips_malformed_batch [OF f l, of "{}" w_units "[]" w_units "[]"
                "(''_id'', Atom (Str ''t1''))" "[]" "[good_batch]" "[]" None]
  have run: "sync w_units (Iter [[(''_id'', Atom (Str ''t1'')), bad_batch, good_batch]] None)
       = Inr (w_units\<lparr>syncEvents := [event (Some 1) (watchKey ''units'' (Str ''u0'')) 7],
                      lastId := Atom (Str ''t1'')\<rparr>,
              None, [InvalidCollection bad_batch])"
    by (simp add: sync_def batch_def Let_def w_units_def newWatcher_def good_batch_def
          bad_batch_def asDoc_def asArr_def normRevno_def notify_def fun_eq_iff)
  from inst run show ?thesis by simp
qed


lemma run_3_then_deleted:
  "fst (loop newWatcher (Inl ErrNotFound) [Iter [] None, it1, it2, it3] [SelSend, SelSend]
          [PickReq watch_m0, PickNext, PickNext, PickNext])
     = [Complete None,
        Send 1 (Change ''machines'' (Str ''m0'') 3),
        Send 1 (Change ''machines'' (Str ''m0'') (-1))]"
  by (simp add: loop_def initLastId_def newWatcher_def syncFlush_def sync_def flush_def
        flushReq.simps it1_def it2_def it3_def logEntry_def watch_m0_def batch_def Let_def
        asDoc_def asArr_def normRevno_def notify_def hasCh_def complOut_def toChange_def)

section \<open>Document watches\<close>

text \<open>
  C2.  For a candidate change of a document, \<open>sync\<close> goes through the entries registered
  on the document's key and, for each of them, queues an event and sets the entry's
  revno to the candidate's exactly when the candidate's revno is reportable against the
  entry's (greater, or negative where the entry's is not); every other entry and every
  other key stay as they are, and the events follow those of the collection watches in
  the queue.  So a fresh watch (revno -2) that sees revno 3, then -5, then any negative
  revno queues 3, then -1, then nothing.
\<close>

theorem doc_watch_decision:
  "docEvents key revno infos =
     (map (\<lambda>info. if reportable revno (info_revno info)
                   then watchInfo (info_ch info) revno (info_filter info) else info) infos,
      map (\<lambda>info. event (info_ch info) key revno)
          (filter (\<lambda>info. reportable revno (info_revno info)) infos))
   \<and> watches (notify c i revno w) =
       (watches w)(watchKey c i := fst (docEvents (watchKey c i) revno (watches w (watchKey c i))))
   \<and> syncEvents (notify c i revno w) =
       syncEvents w @ collEvents (watchKey c i) i revno (watches w (watchKey c NilId))
         @ snd (docEvents (watchKey c i) revno (watches w (watchKey c i)))
   \<and> docEvents key (normRevno 3) [watchInfo ch (-2) f] = ([watchInfo ch 3 f], [event ch key 3])
   \<and> docEvents key (normRevno (-5)) [watchInfo ch 3 f] = ([watchInfo ch (-1) f], [event ch key (-1)])
   \<and> (n < 0 \<longrightarrow> docEvents key (normRevno n) [watchInfo ch (-1) f] = ([watchInfo ch (-1) f], []))"
  by (simp add: docEvents_eq watches_notify syncEvents_notify reportable_def normRevno_def)

theorem doc_watch_decision_witness:
  "docEvents (watchKey ''machines'' (Str ''m0'')) (normRevno (-7)) [watchInfo (Some 1) (-1) None]
     = ([watchInfo (Some 1) (-1) None], [])
   \<and> fst (loop newWatcher (Inl ErrNotFound) [Iter [] None, it1, it2, it3] [SelSend, SelSend]
          [PickReq watch_m0, PickNext, PickNext, PickNext])
     = [Complete None,
        Send 1 (Change ''machines'' (Str ''m0'') 3),
        Send 1 (Change ''machines'' (Str ''m0'') (-1))]"
proof -
  have "(-7::int) < 0" by simp
  with doc_watch_decision [of "watchKey ''machines'' (Str ''m0'')" 0 "[]" "''machines''" "Str ''m0''"
         newWatcher "Some 1" None "-7"]
  have "docEvents (watchKey ''machines'' (Str ''m0'')) (normRevno (-7)) [watchInfo (Some 1) (-1) None]
          = ([watchInfo (Some 1) (-1) None], [])"
    by blast
  with run_3_then_deleted show ?thesis by blast
qed

section \<open>Collection watches\<close>

lemma collEvents_revno_blind:
  "collEvents key i revno (map (\<lambda>info. watchInfo (info_ch info) (g info) (info_filter info)) infos)
     = collEvents key i revno infos"
  by (induction infos) (auto split: option.splits)

lemma docEvents_channels:
  "map info_ch (fst (docEvents key revno infos)) = map info_ch infos"
  by (simp add: docEvents_eq comp_def)

lemma hasCh_same_channels: "map info_ch xs = map info_ch ys \<Longrightarrow> hasCh ch xs = hasCh ch ys"
  by (metis hasCh_map_info_ch)

lemma hasCh_notify: "hasCh ch (watches (notify c i revno w) k) \<longleftrightarrow> hasCh ch (watches w k)"
proof (cases "k = watchKey c i")
  case True
  then show ?thesis
    by (simp add: watches_notify hasCh_same_channels [OF docEvents_channels])
next
  case False
  then show ?thesis by (simp add: watches_notify)
qed

lemma notify_collection_entries:
  "i \<noteq> NilId \<Longrightarrow> watches (notify c i revno w) (watchKey c' NilId) = watches w (watchKey c' NilId)"
  by (simp add: watches_notify)

lemma filter_ch_docEvents:
  "\<not> hasCh ch infos \<Longrightarrow> filter (\<lambda>e. ev_ch e = ch) (snd (docEvents key revno infos)) = []"
  by (auto simp: docEvents_eq hasCh_def filter_empty_conv)

lemma filter_ch_collEvents_none:
  "\<not> hasCh ch infos \<Longrightarrow> filter (\<lambda>e. ev_ch e = ch) (collEvents key i revno infos) = []"
  by (auto simp: collEvents_eq hasCh_def filter_empty_conv)

lemma filter_ch_collEvents_one:
  assumes "filter (\<lambda>info. info_ch info = ch) infos = [info0]"
  shows "filter (\<lambda>e. ev_ch e = ch) (collEvents key i revno infos)
           = (if passesFilter i info0 then [event ch key revno] else [])"
proof -
  have "info0 \<in> set (filter (\<lambda>info. info_ch info = ch) infos)"
    by (simp add: assms)
  then have ch0: "info_ch info0 = ch" by simp
  have "filter (\<lambda>e. ev_ch e = ch) (collEvents key i revno infos)
          = map (\<lambda>info. event (info_ch info) key revno)
              (filter (passesFilter i) (filter (\<lambda>info. info_ch info = ch) infos))"
    by (simp add: collEvents_eq filter_map comp_def conj_commute)
  also have "\<dots> = (if passesFilter i info0 then [event ch key revno] else [])"
    by (simp add: assms ch0)
  finally show ?thesis .
qed

lemma collection_watch_events:
  assumes "\<forall>cd \<in> set cs. fst (snd cd) \<noteq> NilId"
    and "\<forall>k. k \<noteq> watchKey c NilId \<longrightarrow> \<not> hasCh ch (watches w k)"
    and "filter (\<lambda>info. info_ch info = ch) (watches w (watchKey c NilId)) = [info0]"
  shows "filter (\<lambda>e. ev_ch e = ch) (syncEvents (applyCands cs w))
           = filter (\<lambda>e. ev_ch e = ch) (syncEvents w)
               @ map (\<lambda>cd. event ch (candKey cd) (snd (snd cd)))
                   (filter (\<lambda>cd. fst cd = c \<and> passesFilter (fst (snd cd)) info0) cs)
         \<and> watches (applyCands cs w) (watchKey c NilId) = watches w (watchKey c NilId)"
  using assms
proof (induction cs arbitrary: w)
  case Nil
  show ?case by simp
next
  case (Cons cd cs)
  obtain c' i revno where cd: "cd = (c', i, revno)" by (cases cd) auto
  let ?w1 = "notify c' i revno w"
  from Cons.prems(1) cd have i: "i \<noteq> NilId" by simp
  have coll1: "watches ?w1 (watchKey c NilId) = watches w (watchKey c NilId)"
    using i by (rule notify_collection_entries)
  have p1: "\<forall>cd \<in> set cs. fst (snd cd) \<noteq> NilId" using Cons.prems(1) by simp
  have p2: "\<forall>k. k \<noteq> watchKey c NilId \<longrightarrow> \<not> hasCh ch (watches ?w1 k)"
    using Cons.prems(2) by (simp add: hasCh_notify)
  have p3: "filter (\<lambda>info. info_ch info = ch) (watches ?w1 (watchKey c NilId)) = [info0]"
    using Cons.prems(3) coll1 by simp
  note ih = Cons.IH [OF p1 p2 p3]
  have doc: "filter (\<lambda>e. ev_ch e = ch) (snd (docEvents (watchKey c' i) revno (watches w (watchKey c' i)))) = []"
    using Cons.prems(2) i by (intro filter_ch_docEvents) simp
  have coll: "filter (\<lambda>e. ev_ch e = ch) (collEvents (watchKey c' i) i revno (watches w (watchKey c' NilId)))
                = (if c' = c \<and> passesFilter i info0 then [event ch (watchKey c' i) revno] else [])"
  proof (cases "c' = c")
    case True
    then show ?thesis using filter_ch_collEvents_one [OF Cons.prems(3)] by simp
  next
    case False
    then have "\<not> hasCh ch (watches w (watchKey c' NilId))" using Cons.prems(2) by simp
    then show ?thesis using False by (simp add: filter_ch_collEvents_none)
  qed
  have step: "filter (\<lambda>e. ev_ch e = ch) (syncEvents ?w1)
                = filter (\<lambda>e. ev_ch e = ch) (syncEvents w)
                    @ (if c' = c \<and> passesFilter i info0 then [event ch (watchKey c' i) revno] else [])"
    by (simp add: syncEvents_notify doc coll)
  from ih step coll1 cd show ?case
    by (simp add: candKey_simp)
qed

text \<open>
  C3.  For a candidate change, \<open>sync\<close> queues one event for each entry registered on the
  collection's key that has no filter or whose filter accepts the id, and none for the
  others; the entries' revnos play no part.  The documents of a log have ids that are
  not nil; for the candidates of a pass with such ids, an entry whose channel is
  registered nowhere else gets exactly one event for each candidate of its collection
  that passes its filter, all of them when it has none, in the order of the candidates,
  and the entries of the collection's key are never changed.
\<close>

theorem collection_watch_decision:
  "collEvents key i revno infos =
     map (\<lambda>info. event (info_ch info) key revno) (filter (passesFilter i) infos)
   \<and> collEvents key i revno (map (\<lambda>info. watchInfo (info_ch info) (g info) (info_filter info)) infos)
       = collEvents key i revno infos
   \<and> ((\<forall>cd \<in> set cs. fst (snd cd) \<noteq> NilId)
        \<and> (\<forall>k. k \<noteq> watchKey c NilId \<longrightarrow> \<not> hasCh ch (watches w k))
        \<and> filter (\<lambda>info. info_ch info = ch) (watches w (watchKey c NilId)) = [info0] \<longrightarrow>
        filter (\<lambda>e. ev_ch e = ch) (syncEvents (applyCands cs w))
           = filter (\<lambda>e. ev_ch e = ch) (syncEvents w)
               @ map (\<lambda>cd. event ch (candKey cd) (snd (snd cd)))
                   (filter (\<lambda>cd. fst cd = c \<and> passesFilter (fst (snd cd)) info0) cs)
        \<and> watches (applyCands cs w) (watchKey c NilId) = watches w (watchKey c NilId)
        \<and> (info_filter info0 = None \<longrightarrow>
             length (filter (\<lambda>e. ev_ch e = ch) (syncEvents (applyCands cs w)))
               = length (filter (\<lambda>e. ev_ch e = ch) (syncEvents w))
                   + length (filter (\<lambda>cd. fst cd = c) cs)))"
proof (intro conjI impI)
  show "collEvents key i revno infos =
          map (\<lambda>info. event (info_ch info) key revno) (filter (passesFilter i) infos)"
    by (rule collEvents_eq)
  show "collEvents key i revno (map (\<lambda>info. watchInfo (info_ch info) (g info) (info_filter info)) infos)
          = collEvents key i revno infos"
    by (rule collEvents_revno_blind)
next
  assume h: "(\<forall>cd \<in> set cs. fst (snd cd) \<noteq> NilId)
        \<and> (\<forall>k. k \<noteq> watchKey c NilId \<longrightarrow> \<not> hasCh ch (watches w k))
        \<and> filter (\<lambda>info. info_ch info = ch) (watches w (watchKey c NilId)) = [info0]"
  then have ev: "filter (\<lambda>e. ev_ch e = ch) (syncEvents (applyCands cs w))
           = filter (\<lambda>e. ev_ch e = ch) (syncEvents w)
               @ map (\<lambda>cd. event ch (candKey cd) (snd (snd cd)))
                   (filter (\<lambda>cd. fst cd = c \<and> passesFilter (fst (snd cd)) info0) cs)"
    and ws: "watches (applyCands cs w) (watchKey c NilId) = watches w (watchKey c NilId)"
    using collection_watch_events [of cs c ch w info0] by simp_all
  show "filter (\<lambda>e. ev_ch e = ch) (syncEvents (applyCands cs w))
           = filter (\<lambda>e. ev_ch e = ch) (syncEvents w)
               @ map (\<lambda>cd. event ch (candKey cd) (snd (snd cd)))
                   (filter (\<lambda>cd. fst cd = c \<and> passesFilter (fst (snd cd)) info0) cs)"
    by (rule ev)
  show "watches (applyCands cs w) (watchKey c NilId) = watches w (watchKey c NilId)"
    by (rule ws)
  assume "info_filter info0 = None"
  then have "filter (\<lambda>cd. fst cd = c \<and> passesFilter (fst (snd cd)) info0) cs = filter (\<lambda>cd. fst cd = c) cs"
    by (simp add: passesFilter_def)
  with ev show "length (filter (\<lambda>e. ev_ch e = ch) (syncEvents (applyCands cs w)))
               = length (filter (\<lambda>e. ev_ch e = ch) (syncEvents w))
                   + length (filter (\<lambda>cd. fst cd = c) cs)"
    by simp
qed

lemma syncCands_it_m:
  "syncCands w_coll it_m = [(''machines'', Str ''m1'', 2), (''machines'', Str ''m0'', 1)]"
  by (simp add: syncCands_def it_m_def w_coll_def newWatcher_def batchCands_def Let_def asDoc_def
        asArr_def normRevno_def)

lemma run_collection_watch:
  "fst (loop newWatcher (Inl ErrNotFound) [Iter [] None, it_m] [SelSend, SelSend]
          [PickReq (WatchCollection ''machines'' (Some 1)), PickNext])
     = [Complete None,
        Send 1 (Change ''machines'' (Str ''m0'') 1),
        Send 1 (Change ''machines'' (Str ''m1'') 2)]"
  by (simp add: loop_def initLastId_def newWatcher_def syncFlush_def sync_def flush_def
        flushReq.simps it_m_def WatchCollection_def WatchCollectionWithFilter_def batch_def Let_def
        asDoc_def asArr_def normRevno_def notify_def hasCh_def complOut_def toChange_def)

theorem collection_watch_decision_witness:
  "syncCands w_coll it_m = [(''machines'', Str ''m1'', 2), (''machines'', Str ''m0'', 1)]
   \<and> filter (\<lambda>e. ev_ch e = Some 1) (syncEvents (applyCands (syncCands w_coll it_m) w_coll))
       = [event (Some 1) (watchKey ''machines'' (Str ''m1'')) 2,
          event (Some 1) (watchKey ''machines'' (Str ''m0'')) 1]
   \<and> length (filter (\<lambda>e. ev_ch e = Some 1) (syncEvents (applyCands (syncCands w_coll it_m) w_coll))) = 2
   \<and> fst (loop newWatcher (Inl ErrNotFound) [Iter [] None, it_m] [SelSend, SelSend]
          [PickReq (WatchCollection ''machines'' (Some 1)), PickNext])
     = [Complete None,
        Send 1 (Change ''machines'' (Str ''m0'') 1),
        Send 1 (Change ''machines'' (Str ''m1'') 2)]"
proof -
  let ?cs = "[(''machines'', Str ''m1'', 2::int), (''machines'', Str ''m0'', 1)]"
  let ?info0 = "watchInfo (Some (1::nat)) 0 None"
  have h1: "\<forall>cd \<in> set ?cs. fst (snd cd) \<noteq> NilId" by simp
  have h2: "\<forall>k. k \<noteq> watchKey ''machines'' NilId \<longrightarrow> \<not> hasCh (Some 1) (watches w_coll k)"
    by (simp add: w_coll_def newWatcher_def hasCh_def)
  have h3: "filter (\<lambda>info. info_ch info = Some 1) (watches w_coll (watchKey ''machines'' NilId)) = [?info0]"
    by (simp add: w_coll_def newWatcher_def)
  have h4: "info_filter ?info0 = None" by simp
  have s0: "syncEvents w_coll = []" by (simp add: w_coll_def newWatcher_def)
  note inst = collection_watch_decision [of "watchKey ''machines'' NilId" NilId 0 "[]" "\<lambda>info. 0"
                "?cs" "''machines''" "Some 1" w_coll "?info0"]
  from inst h1 h2 h3
  have ev: "filter (\<lambda>e. ev_ch e = Some 1) (syncEvents (applyCands ?cs w_coll))
           = filter (\<lambda>e. ev_ch e = Some 1) (syncEvents w_coll)
               @ map (\<lambda>cd. event (Some 1) (candKey cd) (snd (snd cd)))
                   (filter (\<lambda>cd. fst cd = ''machines'' \<and> passesFilter (fst (snd cd)) ?info0) ?cs)"
    by blast
  from inst h1 h2 h3 h4
  have len: "length (filter (\<lambda>e. ev_ch e = Some 1) (syncEvents (applyCands ?cs w_coll)))
               = length (filter (\<lambda>e. ev_ch e = Some 1) (syncEvents w_coll))
                   + length (filter (\<lambda>cd. fst cd = ''machines'') ?cs)"
    by blast
  have ev': "filter (\<lambda>e. ev_ch e = Some 1) (syncEvents (applyCands ?cs w_coll))
       = [event (Some 1) (watchKey ''machines'' (Str ''m1'')) 2,
          event (Some 1) (watchKey ''machines'' (Str ''m0'')) 1]"
    unfolding ev by (simp add: s0 passesFilter_def candKey_simp)
  have len': "length (filter (\<lambda>e. ev_ch e = Some 1) (syncEvents (applyCands ?cs w_coll))) = 2"
    unfolding len by (simp add: s0)
  from ev' len' syncCands_it_m run_collection_watch show ?thesis by simp
qed


section \<open>The order of delivery\<close>

lemma sends_append: "sends (xs @ ys) = sends xs @ sends ys"
  by (induction xs) (auto split: option.splits)

lemma sent_append: "sent (xs @ ys) = sent xs @ sent ys"
  by (induction xs rule: sent.induct) auto

lemma sent_complOut: "sent (complOut cpl) = []"
  by (cases cpl) (auto simp: complOut_def)

lemma dimmed_refl: "dimmed es es"
  by (simp add: dimmed_def list_all2_refl)

lemma dimmed_trans:
  assumes "dimmed xs ys" and "dimmed ys zs"
  shows "dimmed xs zs"
proof -
  have "list_all2 (\<lambda>e e'. e' = e \<or> e' = event None (ev_key e) (ev_revno e)) xs zs"
    using assms unfolding dimmed_def
    by (rule list_all2_trans [rotated]) auto
  then show ?thesis by (simp add: dimmed_def)
qed

lemma dimmed_length: "dimmed es es' \<Longrightarrow> length es' = length es"
  by (simp add: dimmed_def list_all2_lengthD)

lemma dimmed_purge: "dimmed es (purge k ch es)"
  by (induction es) (auto simp: dimmed_def purge_def)

lemma dimmed_take: "dimmed es es' \<Longrightarrow> dimmed (take n es) (take n es')"
  by (simp add: dimmed_def list_all2_takeI)

lemma dimmed_drop: "dimmed es es' \<Longrightarrow> dimmed (drop n es) (drop n es')"
  by (simp add: dimmed_def list_all2_dropI)

lemma dimmed_rev: "dimmed es es' \<Longrightarrow> dimmed (rev es) (rev es')"
  by (simp add: dimmed_def)

lemma dimmed_nth:
  assumes "dimmed es es'" and "i < length es"
  shows "es' ! i = es ! i \<or> es' ! i = event None (ev_key (es ! i)) (ev_revno (es ! i))"
  using assms by (auto simp: dimmed_def dest: list_all2_nthD)

lemma dimmed_sends: "dimmed es es' \<Longrightarrow> subseq (sends es') (sends es)"
  unfolding dimmed_def
  by (induction es es' rule: list_all2_induct) (auto split: option.splits)

lemma handle_dimmed:
  assumes "handle w r = Inr (w', cpl)"
  shows "dimmed (syncEvents w) (syncEvents w') \<and> dimmed (requestEvents w) (requestEvents w')"
  using assms
  by (cases r) (auto simp: dimmed_refl dimmed_purge split: if_splits option.splits)

lemma sends_single: "sends [e] = (case ev_ch e of None \<Rightarrow> [] | Some ch \<Rightarrow> [(ch, toChange e)])"
  by (simp split: option.splits)

lemma deliver_props:
  assumes "q = syncEvents \<or> q = requestEvents"
    and "deliver q i w sels = (st, w', rest, os)" and "i < length (q w)"
  shows "dimmed (syncEvents w) (syncEvents w') \<and> dimmed (requestEvents w) (requestEvents w')
         \<and> subseq (sent os) (sends [q w ! i])"
  using assms(2,3)
proof (induction sels arbitrary: w os st w' rest)
  case Nil
  then show ?case by (auto simp: dimmed_refl split: option.splits)
next
  case (Cons s sels)
  show ?case
  proof (cases "ev_ch (q w ! i)")
    case None
    with Cons.prems show ?thesis by (auto simp: dimmed_refl)
  next
    case (Some ch)
    show ?thesis
    proof (cases s)
      case SelDying
      with Some Cons.prems show ?thesis by (auto simp: dimmed_refl)
    next
      case SelSend
      with Some Cons.prems show ?thesis by (auto simp: dimmed_refl)
    next
      case (SelReq r)
      show ?thesis
      proof (cases "handle w r")
        case (Inl p)
        with SelReq Some Cons.prems show ?thesis by (auto simp: dimmed_refl)
      next
        case (Inr res)
        obtain w1 cpl where res: "res = (w1, cpl)" by (cases res) auto
        obtain st1 w2 rest1 os1 where d: "deliver q i w1 sels = (st1, w2, rest1, os1)"
          by (cases "deliver q i w1 sels") auto
        from Inr res have h: "handle w r = Inr (w1, cpl)" by simp
        note dim = handle_dimmed [OF h]
        from dim assms(1) have dq: "dimmed (q w) (q w1)" by auto
        then have len: "i < length (q w1)" using Cons.prems(2) by (simp add: dimmed_length)
        note ih = Cons.IH [OF d len]
        from SelReq Some Cons.prems(1) h d
        have eqs: "w' = w2" "os = complOut cpl @ os1" "st = st1" "rest = rest1" by simp_all
        have "dimmed [q w ! i] [q w1 ! i]"
          using dimmed_nth [OF dq Cons.prems(2)] by (auto simp: dimmed_def)
        then have "subseq (sends [q w1 ! i]) (sends [q w ! i])" by (rule dimmed_sends)
        with ih have "subseq (sent os1) (sends [q w ! i])"
          using subseq_order.trans by blast
        with ih dim eqs show ?thesis
          by (auto simp: sent_append sent_complOut intro: dimmed_trans)
      qed
    qed
  qed
qed

lemma flushSync_props:
  assumes "flushSync n w sels = (st, w', rest, os)" and "n \<le> length (syncEvents w)"
  shows "dimmed (syncEvents w) (syncEvents w') \<and> dimmed (requestEvents w) (requestEvents w')
         \<and> subseq (sent os) (sends (rev (take n (syncEvents w))))"
  using assms
proof (induction n arbitrary: w sels os st w' rest)
  case 0
  then show ?case by (auto simp: dimmed_refl)
next
  case (Suc n)
  obtain st1 w1 rest1 os1 where d: "deliver syncEvents n w sels = (st1, w1, rest1, os1)"
    by (cases "deliver syncEvents n w sels") auto
  from Suc.prems(2) have n: "n < length (syncEvents w)" by simp
  from deliver_props [OF _ d] n
  have d1: "dimmed (syncEvents w) (syncEvents w1)" and d2: "dimmed (requestEvents w) (requestEvents w1)"
    and d3: "subseq (sent os1) (sends [syncEvents w ! n])"
    by auto
  have tk: "rev (take (Suc n) (syncEvents w)) = syncEvents w ! n # rev (take n (syncEvents w))"
    using n by (simp add: take_Suc_conv_app_nth)
  show ?case
  proof (cases "st1 = Ok")
    case False
    with d Suc.prems(1) have "w' = w1" "os = os1"
      by (cases st1; simp)+
    with d1 d2 d3 tk show ?thesis
      by (metis append_Cons append_Nil sends_append subseq_rev_drop_many)
  next
    case True
    obtain st2 w2 rest2 os2 where f: "flushSync n w1 rest1 = (st2, w2, rest2, os2)"
      by (cases "flushSync n w1 rest1") auto
    from True d f Suc.prems(1) have eqs: "w' = w2" "os = os1 @ os2" by simp_all
    have n1: "n \<le> length (syncEvents w1)" using n d1 by (simp add: dimmed_length)
    note ih = Suc.IH [OF f n1]
    have "dimmed (rev (take n (syncEvents w))) (rev (take n (syncEvents w1)))"
      using d1 by (intro dimmed_rev dimmed_take)
    then have "subseq (sends (rev (take n (syncEvents w1)))) (sends (rev (take n (syncEvents w))))"
      by (rule dimmed_sends)
    with ih have s2: "subseq (sent os2) (sends (rev (take n (syncEvents w))))"
      using subseq_order.trans by blast
    have "subseq (sent os1 @ sent os2) (sends [syncEvents w ! n] @ sends (rev (take n (syncEvents w))))"
      using d3 s2 by (rule list_emb_append_mono)
    then have "subseq (sent os) (sends (rev (take (Suc n) (syncEvents w))))"
      unfolding tk eqs sent_append by (simp only: sends_append [symmetric] append_Cons append_Nil)
    with ih d1 d2 eqs show ?thesis by (auto intro: dimmed_trans)
  qed
qed

lemma flushReq_props:
  assumes "flushReq i w sels = (st, w', rest, os)"
  shows "dimmed (syncEvents w) (syncEvents w') \<and> dimmed (requestEvents w) (requestEvents w')
         \<and> subseq (sent os) (sends (drop i (requestEvents w)))"
  using assms
proof (induction "length (requestEvents w) - i" arbitrary: i w sels os st w' rest)
  case 0
  then have "\<not> i < length (requestEvents w)" by simp
  with "0.prems" show ?case by (simp add: flushReq.simps [of i w sels] dimmed_refl)
next
  case (Suc m)
  then have i: "i < length (requestEvents w)" by simp
  obtain st1 w1 rest1 os1 where d: "deliver requestEvents i w sels = (st1, w1, rest1, os1)"
    by (cases "deliver requestEvents i w sels") auto
  from deliver_props [OF _ d] i
  have d1: "dimmed (syncEvents w) (syncEvents w1)" and d2: "dimmed (requestEvents w) (requestEvents w1)"
    and d3: "subseq (sent os1) (sends [requestEvents w ! i])"
    by auto
  have dr: "drop i (requestEvents w) = requestEvents w ! i # drop (Suc i) (requestEvents w)"
    using i by (simp add: Cons_nth_drop_Suc)
  show ?case
  proof (cases "st1 = Ok")
    case False
    with d i Suc.prems have "w' = w1" "os = os1"
      by (cases st1; simp add: flushReq.simps [of i w sels])+
    with d1 d2 d3 dr show ?thesis
      by (metis append_Cons append_Nil sends_append subseq_rev_drop_many)
  next
    case True
    obtain st2 w2 rest2 os2 where f: "flushReq (Suc i) w1 rest1 = (st2, w2, rest2, os2)"
      by (cases "flushReq (Suc i) w1 rest1") auto
    from True d f i Suc.prems have eqs: "w' = w2" "os = os1 @ os2"
      by (simp_all add: flushReq.simps [of i w sels])
    have m: "m = length (requestEvents w1) - Suc i"
      using Suc.hyps(2) d2 by (simp add: dimmed_length)
    note ih = Suc.hyps(1) [OF m f]
    have "dimmed (drop (Suc i) (requestEvents w)) (drop (Suc i) (requestEvents w1))"
      using d2 by (rule dimmed_drop)
    then have "subseq (sends (drop (Suc i) (requestEvents w1))) (sends (drop (Suc i) (requestEvents w)))"
      by (rule dimmed_sends)
    with ih have s2: "subseq (sent os2) (sends (drop (Suc i) (requestEvents w)))"
      using subseq_order.trans by blast
    have "subseq (sent os1 @ sent os2)
            (sends [requestEvents w ! i] @ sends (drop (Suc i) (requestEvents w)))"
      using d3 s2 by (rule list_emb_append_mono)
    then have "subseq (sent os) (sends (drop i (requestEvents w)))"
      unfolding dr eqs sent_append by (simp only: sends_append [symmetric] append_Cons append_Nil)
    with ih d1 d2 eqs show ?thesis by (auto intro: dimmed_trans)
  qed
qed

lemma flush_sends_subseq:
  assumes "flush w sels = (st, w', rest, os)"
  shows "subseq (sent os) (sends (rev (syncEvents w)) @ sends (requestEvents w))"
proof -
  obtain st1 w1 rest1 os1 where f1: "flushSync (length (syncEvents w)) w sels = (st1, w1, rest1, os1)"
    by (cases "flushSync (length (syncEvents w)) w sels") auto
  from flushSync_props [OF f1]
  have d2: "dimmed (requestEvents w) (requestEvents w1)"
    and s1: "subseq (sent os1) (sends (rev (syncEvents w)))" by simp_all
  show ?thesis
  proof (cases "st1 = Ok")
    case False
    with f1 assms have "os = os1" by (cases st1; simp add: flush_def)
    with s1 show ?thesis by (simp add: subseq_rev_drop_many)
  next
    case True
    obtain st2 w2 rest2 os2 where f2: "flushReq 0 w1 rest1 = (st2, w2, rest2, os2)"
      by (cases "flushReq 0 w1 rest1") auto
    from True f1 f2 assms have os: "os = os1 @ os2"
      by (cases st2; simp add: flush_def)
    from flushReq_props [OF f2] have "subseq (sent os2) (sends (requestEvents w1))" by simp
    moreover have "subseq (sends (requestEvents w1)) (sends (requestEvents w))"
      using d2 by (rule dimmed_sends)
    ultimately have "subseq (sent os2) (sends (requestEvents w))"
      using subseq_order.trans by blast
    with s1 show ?thesis
      unfolding os sent_append by (rule list_emb_append_mono)
  qed
qed


lemma length_sends_snoc:
  "length (sends (es @ [e])) = length (sends es) + (if ev_ch e = None then 0 else 1)"
  by (simp add: sends_append split: option.splits)

lemma deliver_all_send:
  "deliver q i w (replicate m SelSend) =
     (case ev_ch (q w ! i) of
        None \<Rightarrow> (Ok, w, replicate m SelSend, [])
      | Some ch \<Rightarrow> if m = 0 then (Blocked, w, [], [])
                   else (Ok, w, replicate (m - 1) SelSend, [Send ch (toChange (q w ! i))]))"
  by (cases m) (auto split: option.splits)

lemma flushSync_all_send:
  assumes "n \<le> length (syncEvents w)" and "length (sends (take n (syncEvents w))) \<le> m"
  shows "flushSync n w (replicate m SelSend) =
           (Ok, w, replicate (m - length (sends (take n (syncEvents w)))) SelSend,
            map (\<lambda>(ch, chg). Send ch chg) (sends (rev (take n (syncEvents w)))))"
  using assms
proof (induction n arbitrary: m)
  case 0
  then show ?case by simp
next
  case (Suc n)
  let ?e = "syncEvents w ! n"
  from Suc.prems(1) have n: "n < length (syncEvents w)" by simp
  have tk: "take (Suc n) (syncEvents w) = take n (syncEvents w) @ [?e]"
    using n by (simp add: take_Suc_conv_app_nth)
  show ?case
  proof (cases "ev_ch ?e")
    case None
    from Suc.prems(2) have "length (sends (take n (syncEvents w))) \<le> m"
      by (simp add: tk length_sends_snoc None)
    from Suc.IH [OF _ this] n None show ?thesis
      by (simp add: deliver_all_send tk sends_append)
  next
    case (Some ch)
    from Suc.prems(2) have m: "length (sends (take n (syncEvents w))) \<le> m - 1" "m \<noteq> 0"
      by (simp_all add: tk length_sends_snoc Some)
    from Suc.IH [OF _ m(1)] n Some m(2) show ?thesis
      by (simp add: deliver_all_send tk sends_append)
  qed
qed

lemma flushReq_all_send:
  assumes "length (sends (drop i (requestEvents w))) \<le> m"
  shows "flushReq i w (replicate m SelSend) =
           (Ok, w, replicate (m - length (sends (drop i (requestEvents w)))) SelSend,
            map (\<lambda>(ch, chg). Send ch chg) (sends (drop i (requestEvents w))))"
  using assms
proof (induction "length (requestEvents w) - i" arbitrary: i m)
  case 0
  then show ?case by (simp add: flushReq.simps [of i w])
next
  case (Suc k)
  let ?e = "requestEvents w ! i"
  from Suc.hyps(2) have i: "i < length (requestEvents w)" by simp
  have dr: "drop i (requestEvents w) = ?e # drop (Suc i) (requestEvents w)"
    using i by (simp add: Cons_nth_drop_Suc)
  have k: "k = length (requestEvents w) - Suc i" using Suc.hyps(2) by simp
  show ?case
  proof (cases "ev_ch ?e")
    case None
    from Suc.prems have "length (sends (drop (Suc i) (requestEvents w))) \<le> m"
      by (simp add: dr None)
    from Suc.hyps(1) [OF k this] i None show ?thesis
      by (simp add: flushReq.simps [of i w] deliver_all_send dr)
  next
    case (Some ch)
    from Suc.prems have m: "length (sends (drop (Suc i) (requestEvents w))) \<le> m - 1" "m \<noteq> 0"
      by (simp_all add: dr Some)
    from Suc.hyps(1) [OF k m(1)] i Some m(2) show ?thesis
      by (simp add: flushReq.simps [of i w] deliver_all_send dr)
  qed
qed

lemma flush_all_send:
  assumes "length (sends (syncEvents w)) + length (sends (requestEvents w)) \<le> m"
  shows "flush w (replicate m SelSend) =
           (Ok, w\<lparr>syncEvents := [], requestEvents := []\<rparr>,
            replicate (m - (length (sends (syncEvents w)) + length (sends (requestEvents w)))) SelSend,
            map (\<lambda>(ch, chg). Send ch chg) (sends (rev (syncEvents w)) @ sends (requestEvents w)))"
proof -
  let ?a = "length (sends (syncEvents w))"
  have 1: "flushSync (length (syncEvents w)) w (replicate m SelSend) =
             (Ok, w, replicate (m - ?a) SelSend,
              map (\<lambda>(ch, chg). Send ch chg) (sends (rev (syncEvents w))))"
    using flushSync_all_send [of "length (syncEvents w)" w m] assms by simp
  have 2: "flushReq 0 w (replicate (m - ?a) SelSend) =
             (Ok, w, replicate (m - ?a - length (sends (requestEvents w))) SelSend,
              map (\<lambda>(ch, chg). Send ch chg) (sends (requestEvents w)))"
    using flushReq_all_send [of 0 w "m - ?a"] assms by simp
  show ?thesis by (simp add: flush_def 1 2)
qed

lemma syncEvents_notify_prefix: "prefix (syncEvents w) (syncEvents (notify c i revno w))"
  by (simp add: syncEvents_notify)

lemma syncEvents_applyCands_prefix: "prefix (syncEvents w) (syncEvents (applyCands cs w))"
proof (induction cs arbitrary: w)
  case Nil
  show ?case by simp
next
  case (Cons cd cs)
  obtain c i revno where "cd = (c, i, revno)" by (cases cd) auto
  with Cons [of "notify c i revno w"] syncEvents_notify_prefix [of w c i revno] show ?case
    by (auto intro: prefix_order.trans)
qed

text \<open>
  C7.  A flush sends the events of the sync queue from its last index to its first and
  then those of the request queue from its first index on.  Whatever the selects choose,
  the sends of a flush are a subsequence of that list (a request handled in between can
  only take events out, and the flush can stop early); when every select is a subscriber
  accepting an event and there are enough of them, the sends are that list exactly and
  both queues are empty afterwards.  A sync pass appends to the sync queue in the order
  in which it reaches its candidates, the newest log entry first, so the other way round
  is the oldest change first.
\<close>

theorem flush_order:
  "(flush w sels = (st, w', rest, os) \<longrightarrow>
      subseq (sent os) (sends (rev (syncEvents w)) @ sends (requestEvents w)))
   \<and> (length (sends (syncEvents w)) + length (sends (requestEvents w)) \<le> m \<longrightarrow>
        flush w (replicate m SelSend) =
          (Ok, w\<lparr>syncEvents := [], requestEvents := []\<rparr>,
           replicate (m - (length (sends (syncEvents w)) + length (sends (requestEvents w)))) SelSend,
           map (\<lambda>(ch, chg). Send ch chg) (sends (rev (syncEvents w)) @ sends (requestEvents w))))
   \<and> prefix (syncEvents (applyCands xs w)) (syncEvents (applyCands (xs @ ys) w))"
  using flush_sends_subseq flush_all_send syncEvents_applyCands_prefix
  by (simp add: applyCands_append)

lemma run_two_entries:
  "fst (loop newWatcher (Inl ErrNotFound) [Iter [] None, it_two] [SelSend, SelSend]
          [PickReq (WatchCollection ''machines'' (Some 1)), PickNext])
     = [Complete None,
        Send 1 (Change ''machines'' (Str ''m0'') 4),
        Send 1 (Change ''machines'' (Str ''m1'') 5)]"
  by (simp add: loop_def initLastId_def newWatcher_def syncFlush_def sync_def flush_def
        flushReq.simps it_two_def WatchCollection_def WatchCollectionWithFilter_def batch_def Let_def
        asDoc_def asArr_def normRevno_def notify_def hasCh_def complOut_def toChange_def)

theorem flush_order_witness:
  "flush w_queued [SelSend, SelSend, SelSend] =
     (Ok, w_queued\<lparr>syncEvents := [], requestEvents := []\<rparr>, [],
      [Send 2 (Change ''machines'' (Str ''m0'') 4),
       Send 1 (Change ''machines'' (Str ''m1'') 5),
       Send 1 (Change ''units'' (Str ''u0'') 7)])
   \<and> subseq (sent [Send 2 (Change ''machines'' (Str ''m0'') 4),
                   Send 1 (Change ''machines'' (Str ''m1'') 5),
                   Send 1 (Change ''units'' (Str ''u0'') 7)])
        (sends (rev (syncEvents w_queued)) @ sends (requestEvents w_queued))
   \<and> fst (loop newWatcher (Inl ErrNotFound) [Iter [] None, it_two] [SelSend, SelSend]
          [PickReq (WatchCollection ''machines'' (Some 1)), PickNext])
     = [Complete None,
        Send 1 (Change ''machines'' (Str ''m0'') 4),
        Send 1 (Change ''machines'' (Str ''m1'') 5)]"
proof -
  have len: "length (sends (syncEvents w_queued)) + length (sends (requestEvents w_queued)) \<le> 3"
    by (simp add: w_queued_def)
  note inst = flush_order [of w_queued "replicate 3 SelSend" Ok "w_queued\<lparr>syncEvents := [], requestEvents := []\<rparr>"
     "[]" "[Send 2 (Change ''machines'' (Str ''m0'') 4),
            Send 1 (Change ''machines'' (Str ''m1'') 5),
            Send 1 (Change ''units'' (Str ''u0'') 7)]" 3 "[]" "[]"]
  from inst len
  have run: "flush w_queued (replicate 3 SelSend) =
     (Ok, w_queued\<lparr>syncEvents := [], requestEvents := []\<rparr>, [],
      [Send 2 (Change ''machines'' (Str ''m0'') 4),
       Send 1 (Change ''machines'' (Str ''m1'') 5),
       Send 1 (Change ''units'' (Str ''u0'') 7)])"
    by (simp add: w_queued_def toChange_def)
  with inst
  have sub: "subseq (sent [Send 2 (Change ''machines'' (Str ''m0'') 4),
                   Send 1 (Change ''machines'' (Str ''m1'') 5),
                   Send 1 (Change ''units'' (Str ''u0'') 7)])
        (sends (rev (syncEvents w_queued)) @ sends (requestEvents w_queued))"
    by blast
  have "replicate 3 SelSend = [SelSend, SelSend, SelSend]"
    by (simp add: eval_nat_numeral)
  with run sub run_two_entries show ?thesis by simp
qed

section \<open>Unwatch\<close>











section \<open>Position lost\<close>

lemma syncFlush_close_error:
  assumes "needSync w" and "iter_close it = Some e"
    and "entries (lastId w) (iter_entries it) True ({}, w\<lparr>needSync := False\<rparr>, []) = Inr ps"
  shows "syncFlush w (it # its) sels =
           (if isPositionLost e then Inl ([], Returned ErrRestartAgent)
            else if Cause e = cappedPositionLostError then Inl ([], Returned ErrRestartAgent)
            else Inl ([], Returned (Trace (Annotate e ''watcher iteration error''))))"
  using assms by (cases ps) (simp add: syncFlush_def sync_def Let_def)

lemma loopFrom_stops: "syncFlush w its sels = Inl res \<Longrightarrow> loopFrom w its sels picks = res"
  by (cases picks) simp_all

text \<open>
  C9.  When the iteration of a sync pass ends with an error of the log, the watcher's loop
  returns at once.  If the error is the position-lost condition (a query error with code
  136 or with CappedPositionLost in its message), the loop returns the restart-the-agent
  error, and that is what \<open>Wait\<close> gives; for any other error it returns the annotated
  error, and \<open>Wait\<close> gives its cause.  The pass has to reach the end of its iteration
  (no panic on the way); the watcher's own position-lost value is not an error of the
  log.
\<close>

theorem position_lost_restarts_agent:
  assumes "needSync w" and "iter_close it = Some e"
    and "entries (lastId w) (iter_entries it) True ({}, w\<lparr>needSync := False\<rparr>, []) = Inr ps"
  shows "(isPositionLost e \<longrightarrow>
            loopFrom w (it # its) sels picks = ([], Returned ErrRestartAgent)
            \<and> Wait (loopFrom w (it # its) sels picks) = Some (Some ErrRestartAgent))
         \<and> (\<not> isPositionLost e \<and> Cause e \<noteq> cappedPositionLostError \<longrightarrow>
            loopFrom w (it # its) sels picks
              = ([], Returned (Trace (Annotate e ''watcher iteration error'')))
            \<and> Wait (loopFrom w (it # its) sels picks)
              = Some (if Cause e = ErrDying then None else Some (Cause e)))"
proof (intro conjI impI)
  note sf = syncFlush_close_error [OF assms, of its sels]
  {
    assume "isPositionLost e"
    with sf have "syncFlush w (it # its) sels = Inl ([], Returned ErrRestartAgent)" by simp
    then show run: "loopFrom w (it # its) sels picks = ([], Returned ErrRestartAgent)"
      by (rule loopFrom_stops)
    show "Wait (loopFrom w (it # its) sels picks) = Some (Some ErrRestartAgent)"
      by (simp add: run Wait_def)
  }
  {
    assume "\<not> isPositionLost e \<and> Cause e \<noteq> cappedPositionLostError"
    with sf have "syncFlush w (it # its) sels
                    = Inl ([], Returned (Trace (Annotate e ''watcher iteration error'')))"
      by simp
    then show run: "loopFrom w (it # its) sels picks
                      = ([], Returned (Trace (Annotate e ''watcher iteration error'')))"
      by (rule loopFrom_stops)
    show "Wait (loopFrom w (it # its) sels picks)
            = Some (if Cause e = ErrDying then None else Some (Cause e))"
      by (simp add: run Wait_def)
  }
qed

theorem position_lost_restarts_agent_witness:
  "Wait (loop newWatcher (Inl ErrNotFound) [Iter [] (Some (QueryError 136 ''overflow''))] [] [])
     = Some (Some ErrRestartAgent)
   \<and> Wait (loop newWatcher (Inl ErrNotFound)
        [Iter [] (Some (QueryError 1 ''getMore: CappedPositionLost: position lost''))] [] [])
     = Some (Some ErrRestartAgent)
   \<and> Wait (loop newWatcher (Inl ErrNotFound) [Iter [] (Some (IOError ''EOF''))] [] [PickNext])
     = Some (Some (IOError ''EOF''))"
proof -
  let ?w = "newWatcher\<lparr>needSync := True, lastId := Atom NilId\<rparr>"
  have lp: "loop newWatcher (Inl ErrNotFound) its sels picks = loopFrom ?w its sels picks"
    for its sels picks
    by (simp add: loop_def initLastId_def)
  have n: "needSync ?w" by simp
  have e: "entries (lastId ?w) (iter_entries (Iter [] (Some err))) True ({}, ?w\<lparr>needSync := False\<rparr>, [])
             = Inr ({}, ?w\<lparr>needSync := False\<rparr>, [])" for err
    by simp
  have c: "iter_close (Iter [] (Some err)) = Some err" for err by simp
  have p1: "isPositionLost (QueryError 136 ''overflow'')"
    by (simp add: isPositionLost_def)
  have p2: "isPositionLost (QueryError 1 ''getMore: CappedPositionLost: position lost'')"
    by (simp add: isPositionLost_def)
  have p3: "\<not> isPositionLost (IOError ''EOF'') \<and> Cause (IOError ''EOF'') \<noteq> cappedPositionLostError"
    by (simp add: isPositionLost_def)
  from position_lost_restarts_agent [OF n c e, of "QueryError 136 ''overflow''" "[]" "[]" "[]"] p1
  have 1: "Wait (loopFrom ?w [Iter [] (Some (QueryError 136 ''overflow''))] [] [])
             = Some (Some ErrRestartAgent)"
    by blast
  from position_lost_restarts_agent [OF n c e,
         of "QueryError 1 ''getMore: CappedPositionLost: position lost''" "[]" "[]" "[]"] p2
  have 2: "Wait (loopFrom ?w [Iter [] (Some (QueryError 1 ''getMore: CappedPositionLost: position lost''))] [] [])
             = Some (Some ErrRestartAgent)"
    by blast
  have c3: "(if Cause (IOError ''EOF'') = ErrDying then None else Some (Cause (IOError ''EOF'')))
              = Some (IOError ''EOF'')"
    by simp
  from position_lost_restarts_agent [OF n c e, of "IOError ''EOF''" "[]" "[]" "[PickNext]"] p3
  have "Wait (loopFrom ?w [Iter [] (Some (IOError ''EOF''))] [] [PickNext])
          = Some (if Cause (IOError ''EOF'') = ErrDying then None else Some (Cause (IOError ''EOF'')))"
    by blast
  then have 3: "Wait (loopFrom ?w [Iter [] (Some (IOError ''EOF''))] [] [PickNext])
             = Some (Some (IOError ''EOF''))"
    by (simp only: c3)
  from 1 2 3 show ?thesis by (simp only: lp simp_thms)
qed

section \<open>The revnos of a document watch\<close>












end
